theory Spec2Isabelle
  imports Main "HOL-Library.List_Lexorder" "HOL-Library.Char_ord"
begin

text \<open>
  A model of the file manager's two cores: the archive job engine (the in-memory queue and
  the construction of zip archives) and the hierarchy store (folders with materialized
  paths, files and their stored bytes), with the properties of each that hold of the code
  and the inputs at which others fail.
\<close>

section \<open>The in-memory job queue (class InMemoryQueue)\<close>

text \<open>
  The queue keeps its jobs in a JavaScript \<^verbatim>\<open>Map<string, QueueJob>\<close>, keyed by the job id.
  A Map iterates in insertion order and holds one value per key, so it is modelled as the
  list of its values in insertion order; the key of an entry is the \<open>jid\<close> of the job.
  The fields \<open>jid\<close>, \<open>jtype\<close> and \<open>jdata\<close> are the source's \<^verbatim>\<open>id\<close>, \<^verbatim>\<open>type\<close> and
  \<^verbatim>\<open>data\<close>. Dates are natural numbers (a clock reading).
\<close>

datatype job_status = Pending | Processing | Completed | Failed

datatype job_type = Zip

record zip_data =
  fileIds :: "string list"
  userId :: string

record QueueJob =
  jid :: string
  jtype :: job_type
  jdata :: zip_data
  status :: job_status
  createdAt :: nat
  processedAt :: "nat option"

text \<open>\<^verbatim>\<open>this.jobs.get(id)\<close> and \<^verbatim>\<open>this.jobs.set(id, job)\<close>: setting an existing key keeps
  its position and replaces the value, a new key is appended.\<close>

definition getJob :: "QueueJob list \<Rightarrow> string \<Rightarrow> QueueJob option" where
  "getJob js i = find (\<lambda>job. jid job = i) js"

fun map_set :: "QueueJob list \<Rightarrow> string \<Rightarrow> QueueJob \<Rightarrow> QueueJob list" where
  "map_set [] i v = [v]"
| "map_set (job # js) i v = (if jid job = i then v # js else job # map_set js i v)"

text \<open>\<^verbatim>\<open>updateJobStatus(id, status, processedAt?)\<close> fetches the job stored under the id,
  assigns the status, assigns \<^verbatim>\<open>processedAt\<close> when one is passed, and stores the job back.
  It has no guard on the old status. On a Map (one entry per id) this is the rewrite of
  the entry with that id.\<close>

definition touch :: "job_status \<Rightarrow> nat option \<Rightarrow> QueueJob \<Rightarrow> QueueJob" where
  "touch s t job =
     (case t of None \<Rightarrow> job\<lparr>status := s\<rparr>
      | Some d \<Rightarrow> job\<lparr>status := s, processedAt := Some d\<rparr>)"

definition updateJobStatus :: "string \<Rightarrow> job_status \<Rightarrow> nat option \<Rightarrow> QueueJob list \<Rightarrow> QueueJob list" where
  "updateJobStatus i s t js = map (\<lambda>job. if jid job = i then touch s t job else job) js"

text \<open>\<^verbatim>\<open>Array.from(this.jobs.values()).find(job => job.status === 'pending')\<close>\<close>

definition findPending :: "QueueJob list \<Rightarrow> QueueJob option" where
  "findPending js = find (\<lambda>job. status job = Pending) js"

definition pendingCount :: "QueueJob list \<Rightarrow> nat" where
  "pendingCount js = length (filter (\<lambda>job. status job = Pending) js)"

definition terminal :: "job_status \<Rightarrow> bool" where
  "terminal s = (s = Completed \<or> s = Failed)"

text \<open>\<^verbatim>\<open>processJob\<close> in two halves, split at its \<^verbatim>\<open>await this.processZipJob(job)\<close>:
  before it the job is marked processing; after it the job is marked completed when the
  awaited promise resolved and failed (in the \<^verbatim>\<open>catch\<close>) when it rejected, both with
  \<^verbatim>\<open>new Date()\<close>. The only job type is \<^verbatim>\<open>'zip'\<close>, so the test on the type is true.\<close>

definition startJob :: "QueueJob \<Rightarrow> QueueJob list \<Rightarrow> QueueJob list" where
  "startJob job js = updateJobStatus (jid job) Processing None js"

definition finishJob :: "string \<Rightarrow> bool \<Rightarrow> nat \<Rightarrow> QueueJob list \<Rightarrow> QueueJob list" where
  "finishJob i resolved now js =
     (if resolved then updateJobStatus i Completed (Some now) js
      else updateJobStatus i Failed (Some now) js)"

text \<open>The state of the queue object: the Map of the jobs and the flag \<^verbatim>\<open>processing\<close>.\<close>

record InMemoryQueue =
  jobs :: "QueueJob list"
  processing :: bool

subsection \<open>The drain loop and the submissions that arrive while it waits\<close>

text \<open>
  \<^verbatim>\<open>processQueue\<close> is an async function: a call runs until the \<^verbatim>\<open>await\<close> inside
  \<^verbatim>\<open>processJob\<close>, is suspended there while the job body runs, and is resumed after
  \<^verbatim>\<open>processJob\<close> has returned. Between these points other code runs, in particular
  \<^verbatim>\<open>addJob\<close>. The state therefore also holds the suspended invocations of
  \<^verbatim>\<open>processQueue\<close>, each either inside the body of a job (\<open>InBody\<close>, with the id of the job
  it passed to \<^verbatim>\<open>processJob\<close>) or past it and about to look for the next job (\<open>AfterBody\<close>).
\<close>

datatype invocation = InBody string | AfterBody

record Sched =
  queue :: InMemoryQueue
  suspended :: "invocation list"

text \<open>One pass through the loop body up to the next suspension: no pending job ends the
  loop (\<open>None\<close>), otherwise the first pending job is started.\<close>

definition pass :: "QueueJob list \<Rightarrow> QueueJob list \<times> invocation option" where
  "pass js =
     (case findPending js of
        None \<Rightarrow> (js, None)
      | Some job \<Rightarrow> (startJob job js, Some (InBody (jid job))))"

text \<open>A call of \<^verbatim>\<open>processQueue\<close> up to its first suspension or its return.\<close>

definition callProcessQueue :: "Sched \<Rightarrow> Sched" where
  "callProcessQueue s =
     (if processing (queue s) then s
      else (case pass (jobs (queue s)) of
              (js, None) \<Rightarrow> s\<lparr>queue := \<lparr>jobs = js, processing = False\<rparr>\<rparr>
            | (js, Some c) \<Rightarrow>
                s\<lparr>queue := \<lparr>jobs = js, processing = True\<rparr>, suspended := suspended s @ [c]\<rparr>))"

text \<open>\<^verbatim>\<open>addJob(id, type, data)\<close>: store a pending job under the id and call
  \<^verbatim>\<open>processQueue\<close> without awaiting it.\<close>

definition newJob :: "string \<Rightarrow> zip_data \<Rightarrow> nat \<Rightarrow> QueueJob" where
  "newJob i d now =
     \<lparr>jid = i, jtype = Zip, jdata = d, status = Pending, createdAt = now, processedAt = None\<rparr>"

definition addJob :: "string \<Rightarrow> zip_data \<Rightarrow> nat \<Rightarrow> Sched \<Rightarrow> Sched" where
  "addJob i d now s =
     callProcessQueue (s\<lparr>queue := (queue s)\<lparr>jobs := map_set (jobs (queue s)) i (newJob i d now)\<rparr>\<rparr>)"

text \<open>
  What can happen next: a submission; the body awaited by the \<open>k\<close>-th suspended invocation
  settles (resolved or rejected, at a clock reading), whereupon \<^verbatim>\<open>processJob\<close> records the
  outcome and returns; or the \<open>k\<close>-th invocation, past its job, resumes its loop. An event
  that is not enabled gives \<open>None\<close>.
\<close>

datatype event = Submit string zip_data nat | Settle nat bool nat | Resume nat

definition drop_nth :: "nat \<Rightarrow> 'a list \<Rightarrow> 'a list" where
  "drop_nth k xs = take k xs @ drop (Suc k) xs"

fun fire :: "event \<Rightarrow> Sched \<Rightarrow> Sched option" where
  "fire (Submit i d now) s = Some (addJob i d now s)"
| "fire (Settle k resolved now) s =
     (if k < length (suspended s) then
        (case suspended s ! k of
           InBody i \<Rightarrow>
             Some (s\<lparr>queue := (queue s)\<lparr>jobs := finishJob i resolved now (jobs (queue s))\<rparr>,
                     suspended := (suspended s)[k := AfterBody]\<rparr>)
         | AfterBody \<Rightarrow> None)
      else None)"
| "fire (Resume k) s =
     (if k < length (suspended s) then
        (case suspended s ! k of
           InBody i \<Rightarrow> None
         | AfterBody \<Rightarrow>
             (case pass (jobs (queue s)) of
                (js, None) \<Rightarrow>
                  Some (s\<lparr>queue := \<lparr>jobs = js, processing = False\<rparr>,
                          suspended := drop_nth k (suspended s)\<rparr>)
              | (js, Some c) \<Rightarrow>
                  Some (s\<lparr>queue := (queue s)\<lparr>jobs := js\<rparr>,
                          suspended := (suspended s)[k := c]\<rparr>)))
      else None)"

fun run :: "event list \<Rightarrow> Sched \<Rightarrow> Sched option" where
  "run [] s = Some s"
| "run (e # es) s = (case fire e s of None \<Rightarrow> None | Some s' \<Rightarrow> run es s')"

fun submitted :: "event list \<Rightarrow> string list" where
  "submitted [] = []"
| "submitted (Submit i d now # es) = i # submitted es"
| "submitted (e # es) = submitted es"

definition fresh_queue :: Sched where
  "fresh_queue = \<lparr>queue = \<lparr>jobs = [], processing = False\<rparr>, suspended = []\<rparr>"

text \<open>The order of the statuses along pending, processing, then completed or failed, and
  one move along it.\<close>

fun rank :: "job_status \<Rightarrow> nat" where
  "rank Pending = 0"
| "rank Processing = 1"
| "rank Completed = 2"
| "rank Failed = 2"

definition advance :: "job_status \<Rightarrow> job_status \<Rightarrow> bool" where
  "advance s s' = (s' = s \<or> (s = Pending \<and> s' = Processing) \<or> (s = Processing \<and> terminal s'))"

text \<open>
  The states the queue can be in. The jobs are, in insertion order, terminal jobs \<open>ts\<close>,
  then the job being processed if an invocation of \<^verbatim>\<open>processQueue\<close> is inside a job body,
  then pending jobs \<open>ps\<close>; there is at most one suspended invocation, and the flag is set
  exactly when there is one.
\<close>

definition qshape :: "Sched \<Rightarrow> QueueJob list \<Rightarrow> QueueJob list \<Rightarrow> bool" where
  "qshape s ts ps =
     ((\<forall>j \<in> set ts. terminal (status j)) \<and> (\<forall>j \<in> set ps. status j = Pending) \<and>
      ((suspended s = [] \<and> \<not> processing (queue s) \<and> jobs (queue s) = ts \<and> ps = []) \<or>
       (\<exists>j. suspended s = [InBody (jid j)] \<and> processing (queue s) \<and> status j = Processing
            \<and> jobs (queue s) = ts @ j # ps) \<or>
       (suspended s = [AfterBody] \<and> processing (queue s) \<and> jobs (queue s) = ts @ ps)))"

definition qinv :: "Sched \<Rightarrow> bool" where
  "qinv s = (distinct (map jid (jobs (queue s))) \<and> (\<exists>ts ps. qshape s ts ps))"

text \<open>How a job record may differ after one event (\<open>later\<close>) and after any number of
  events (\<open>follows\<close>); \<open>evolves\<close> lifts this to the job list, which may have grown.\<close>

definition later :: "QueueJob \<Rightarrow> QueueJob \<Rightarrow> bool" where
  "later j j' = (jid j' = jid j \<and> advance (status j) (status j') \<and> (terminal (status j) \<longrightarrow> j' = j))"

definition follows :: "QueueJob \<Rightarrow> QueueJob \<Rightarrow> bool" where
  "follows j j' = (jid j' = jid j \<and> rank (status j) \<le> rank (status j')
      \<and> (terminal (status j) \<longrightarrow> j' = j))"

definition evolves :: "QueueJob list \<Rightarrow> QueueJob list \<Rightarrow> bool" where
  "evolves js js' = (\<exists>pre extra. js' = pre @ extra \<and> list_all2 follows js pre)"

text \<open>
  The work the loop still has before it: two steps for every pending job (its start and
  the settlement of its body), two for an invocation inside a job body (the settlement
  and the return to the loop head), one for an invocation at the loop head. \<open>loopSteps\<close>
  counts the steps of the loop in a run, which are the settlements and the resumptions.
\<close>

fun weight :: "invocation \<Rightarrow> nat" where
  "weight (InBody i) = 2"
| "weight AfterBody = 1"

definition load :: "Sched \<Rightarrow> nat" where
  "load s = 2 * pendingCount (jobs (queue s)) + sum_list (map weight (suspended s))"

fun loopSteps :: "event list \<Rightarrow> nat" where
  "loopSteps [] = 0"
| "loopSteps (Submit i d now # es) = loopSteps es"
| "loopSteps (e # es) = Suc (loopSteps es)"

section \<open>Archive construction (zip.ts) and its records (database.ts)\<close>

text \<open>
  The rows of the SQLite tables \<^verbatim>\<open>files\<close> and \<^verbatim>\<open>zip_jobs\<close>. The fields are the source's,
  prefixed \<open>f_\<close> and \<open>z_\<close>; \<open>f_path\<close> is the location of the stored bytes on disk. Both
  tables have the id as primary key. Timestamps are clock readings.
\<close>

record DbFile =
  f_id :: string
  f_name :: string
  f_size :: nat
  f_checksum :: string
  f_folder_id :: string
  f_user_id :: string
  f_path :: string
  f_mime_type :: string
  f_created_at :: nat
  f_updated_at :: nat

record ZipJob =
  z_id :: string
  z_user_id :: string
  z_file_ids :: string
  z_status :: job_status
  z_download_url :: "string option"
  z_created_at :: nat
  z_completed_at :: "nat option"

datatype db_error = ConstraintViolation

text \<open>\<^verbatim>\<open>SELECT * FROM files WHERE id = ?\<close>, \<^verbatim>\<open>null\<close> when there is no row.\<close>

definition getFileById :: "DbFile list \<Rightarrow> string \<Rightarrow> DbFile option" where
  "getFileById files i = find (\<lambda>f. f_id f = i) files"

definition getZipJobById :: "ZipJob list \<Rightarrow> string \<Rightarrow> ZipJob option" where
  "getZipJobById tbl i = find (\<lambda>z. z_id z = i) tbl"

text \<open>\<^verbatim>\<open>createZipJob\<close> inserts id, user, file ids, status and download URL; \<^verbatim>\<open>created_at\<close>
  takes its default and \<^verbatim>\<open>completed_at\<close> stays \<^verbatim>\<open>NULL\<close>. A second row with the same id is
  refused by the primary key.\<close>

definition createZipJob ::
  "string \<Rightarrow> string \<Rightarrow> string \<Rightarrow> job_status \<Rightarrow> string option \<Rightarrow> nat \<Rightarrow> ZipJob list
   \<Rightarrow> db_error + ZipJob list" where
  "createZipJob i uid fids s url now tbl =
     (if i \<in> set (map z_id tbl) then Inl ConstraintViolation
      else Inr (tbl @ [\<lparr>z_id = i, z_user_id = uid, z_file_ids = fids, z_status = s,
                        z_download_url = url, z_created_at = now, z_completed_at = None\<rparr>]))"

text \<open>
  \<^verbatim>\<open>updateZipJobStatus(id, status, downloadUrl?)\<close> chooses its statement by the truthiness
  of \<^verbatim>\<open>downloadUrl\<close> (absent and the empty string are falsy): with a URL it writes status,
  URL and \<^verbatim>\<open>completed_at = CURRENT_TIMESTAMP\<close>; without one it writes the status only.
\<close>

definition truthy :: "string option \<Rightarrow> bool" where
  "truthy u = (case u of None \<Rightarrow> False | Some v \<Rightarrow> v \<noteq> [])"

definition updateZipJobStatus ::
  "string \<Rightarrow> job_status \<Rightarrow> string option \<Rightarrow> nat \<Rightarrow> ZipJob list \<Rightarrow> ZipJob list" where
  "updateZipJobStatus i s downloadUrl now tbl =
     (if truthy downloadUrl
      then map (\<lambda>z. if z_id z = i
                   then z\<lparr>z_status := s, z_download_url := downloadUrl, z_completed_at := Some now\<rparr>
                   else z) tbl
      else map (\<lambda>z. if z_id z = i then z\<lparr>z_status := s\<rparr> else z) tbl)"

text \<open>
  The loop of \<^verbatim>\<open>processZipFiles\<close> over the requested ids. An archive is the list of its
  entries in the order they were added, each the disk path read and the entry name; \<open>disk\<close>
  is the set of paths for which \<^verbatim>\<open>fs.existsSync\<close> holds.
\<close>

type_synonym archive = "(string \<times> string) list"

fun addFiles :: "DbFile list \<Rightarrow> string set \<Rightarrow> string \<Rightarrow> string list \<Rightarrow> archive \<Rightarrow> archive" where
  "addFiles files disk uid [] ar = ar"
| "addFiles files disk uid (fileId # rest) ar =
     (case getFileById files fileId of
        None \<Rightarrow> addFiles files disk uid rest ar
      | Some file \<Rightarrow>
          if f_user_id file = uid \<and> f_path file \<in> disk
          then addFiles files disk uid rest (ar @ [(f_path file, f_name file)])
          else addFiles files disk uid rest ar)"

text \<open>
  How the build ends is decided by the archiver and the output stream, which are not part
  of the repository, and is an input here. A build is taken to end in exactly one of three
  ways: the output stream closes (\<open>Closed\<close>), the archiver emits
  \<^verbatim>\<open>'error'\<close> (\<open>ArchiveError\<close>), or a statement of the \<^verbatim>\<open>try\<close> block throws, a rejected
  \<^verbatim>\<open>getFileById\<close> or \<^verbatim>\<open>finalize\<close> included (\<open>Thrown\<close>). The handlers of
  \<^verbatim>\<open>processZipFiles\<close> answer with \<^verbatim>\<open>updateZipJobStatus\<close> and by settling the promise
  (\<open>Inr\<close> the download URL when resolved, \<open>Inl\<close> when rejected). \<open>container\<close> is the content
  of \<^verbatim>\<open>zips/<jobId>.zip\<close> when it was written to its end, \<open>None\<close> for a partial file.
\<close>

datatype build = Closed | ArchiveError | Thrown

text \<open>The download URL \<^verbatim>\<open>`/api/zip/${jobId}`\<close>.\<close>

definition downloadUrlOf :: "string \<Rightarrow> string" where
  "downloadUrlOf jobId = ''/api/zip/'' @ jobId"

record zip_run =
  zip_jobs :: "ZipJob list"
  settled :: "unit + string"
  container :: "archive option"

definition processZipFiles ::
  "DbFile list \<Rightarrow> string set \<Rightarrow> build \<Rightarrow> nat \<Rightarrow> string list \<Rightarrow> string \<Rightarrow> string \<Rightarrow> ZipJob list
   \<Rightarrow> zip_run" where
  "processZipFiles files disk b now ids uid jobId tbl =
     (case b of
        Closed \<Rightarrow>
          \<lparr>zip_jobs = updateZipJobStatus jobId Completed (Some (downloadUrlOf jobId)) now tbl,
           settled = Inr (downloadUrlOf jobId),
           container = Some (addFiles files disk uid ids [])\<rparr>
      | ArchiveError \<Rightarrow>
          \<lparr>zip_jobs = updateZipJobStatus jobId Failed None now tbl,
           settled = Inl (),
           container = None\<rparr>
      | Thrown \<Rightarrow>
          \<lparr>zip_jobs = updateZipJobStatus jobId Failed None now tbl,
           settled = Inl (),
           container = None\<rparr>)"

text \<open>The three checks a requested file has to pass to be added.\<close>

definition included :: "string set \<Rightarrow> string \<Rightarrow> DbFile \<Rightarrow> bool" where
  "included disk uid file = (f_user_id file = uid \<and> f_path file \<in> disk)"

section \<open>The engine: the queue and the rows of the jobs together\<close>















section \<open>The hierarchy store (supabase-api.ts over the tables of supabase-setup.sql)\<close>

text \<open>
  The rows of \<^verbatim>\<open>fm_folders\<close> and \<^verbatim>\<open>fm_files\<close> (fields prefixed \<open>fo_\<close> and \<open>fi_\<close>), and
  the objects of the storage bucket \<^verbatim>\<open>files\<close>, each a path with its bytes. Both tables
  have the id as primary key; \<^verbatim>\<open>fm_folders.parent_id\<close> and \<^verbatim>\<open>fm_files.folder_id\<close>
  reference \<^verbatim>\<open>fm_folders(id)\<close> with \<^verbatim>\<open>ON DELETE CASCADE\<close>. Row level security shows a
  session the rows whose \<^verbatim>\<open>user_id\<close> is its own and no others.
\<close>

record Folder =
  fo_id :: string
  fo_name :: string
  fo_parent_id :: "string option"
  fo_user_id :: string
  fo_path :: string
  fo_created_at :: nat

record FileRow =
  fi_id :: string
  fi_name :: string
  fi_size :: nat
  fi_checksum :: string
  fi_folder_id :: string
  fi_user_id :: string
  fi_storage_path :: string
  fi_mime_type :: string
  fi_created_at :: nat
  fi_updated_at :: nat

record Store =
  fm_folders :: "Folder list"
  fm_files :: "FileRow list"
  bucket :: "(string \<times> string) list"

datatype api_error = NotAuthenticated | PostgrestError | StorageError

definition empty_store :: Store where
  "empty_store = \<lparr>fm_folders = [], fm_files = [], bucket = []\<rparr>"

text \<open>The rows a session sees (none without a user), and \<^verbatim>\<open>.single()\<close>, which is an
  error unless the query gave exactly one row.\<close>

definition visible :: "string option \<Rightarrow> Folder list \<Rightarrow> Folder list" where
  "visible session tbl =
     (case session of None \<Rightarrow> [] | Some uid \<Rightarrow> filter (\<lambda>f. fo_user_id f = uid) tbl)"

definition visibleFiles :: "string option \<Rightarrow> FileRow list \<Rightarrow> FileRow list" where
  "visibleFiles session tbl =
     (case session of None \<Rightarrow> [] | Some uid \<Rightarrow> filter (\<lambda>f. fi_user_id f = uid) tbl)"

fun single :: "'a list \<Rightarrow> api_error + 'a" where
  "single [r] = Inr r"
| "single rs = Inl PostgrestError"

text \<open>The row a foreign key points at; constraint checks are not subject to row
  level security.\<close>

definition lookupFolder :: "Folder list \<Rightarrow> string \<Rightarrow> Folder option" where
  "lookupFolder tbl i = find (\<lambda>f. fo_id f = i) tbl"

text \<open>\<^verbatim>\<open>INSERT INTO fm_folders\<close>: refused when the id is taken or the parent does not
  exist.\<close>

definition insertFolder :: "Folder \<Rightarrow> Store \<Rightarrow> api_error + (Folder \<times> Store)" where
  "insertFolder row st =
     (if fo_id row \<in> set (map fo_id (fm_folders st)) then Inl PostgrestError
      else (case fo_parent_id row of
              None \<Rightarrow> Inr (row, st\<lparr>fm_folders := fm_folders st @ [row]\<rparr>)
            | Some p \<Rightarrow>
                (case lookupFolder (fm_folders st) p of
                   None \<Rightarrow> Inl PostgrestError
                 | Some g \<Rightarrow> Inr (row, st\<lparr>fm_folders := fm_folders st @ [row]\<rparr>))))"

text \<open>The trigger \<^verbatim>\<open>create_user_root_folder\<close>, run for every new user.\<close>

definition create_user_root_folder :: "string \<Rightarrow> string \<Rightarrow> nat \<Rightarrow> Store \<Rightarrow> api_error + (Folder \<times> Store)" where
  "create_user_root_folder uid newId now st =
     insertFolder \<lparr>fo_id = newId, fo_name = ''Root'', fo_parent_id = None, fo_user_id = uid,
                   fo_path = ''/'', fo_created_at = now\<rparr> st"

text \<open>
  \<^verbatim>\<open>createFolder(name, parentId?)\<close>. \<open>session\<close> is the signed-in user, \<open>newId\<close> the id the
  database generates and \<open>now\<close> its clock. \<^verbatim>\<open>if (parentId)\<close> and \<^verbatim>\<open>parentId || null\<close> treat
  an absent and an empty \<^verbatim>\<open>parentId\<close> alike.
\<close>

definition parentPath :: "string option \<Rightarrow> string option \<Rightarrow> Folder list \<Rightarrow> api_error + string" where
  "parentPath session parentId tbl =
     (if truthy parentId
      then (case single (filter (\<lambda>f. Some (fo_id f) = parentId) (visible session tbl)) of
              Inl e \<Rightarrow> Inl e
            | Inr parentFolder \<Rightarrow> Inr (fo_path parentFolder @ fo_name parentFolder @ ''/''))
      else Inr ''/'')"

definition createFolder ::
  "string option \<Rightarrow> string \<Rightarrow> nat \<Rightarrow> string \<Rightarrow> string option \<Rightarrow> Store
   \<Rightarrow> api_error + (Folder \<times> Store)" where
  "createFolder session newId now name parentId st =
     (case session of
        None \<Rightarrow> Inl NotAuthenticated
      | Some uid \<Rightarrow>
          (case parentPath session parentId (fm_folders st) of
             Inl e \<Rightarrow> Inl e
           | Inr path \<Rightarrow>
               insertFolder \<lparr>fo_id = newId, fo_name = name,
                             fo_parent_id = (if truthy parentId then parentId else None),
                             fo_user_id = uid, fo_path = path, fo_created_at = now\<rparr> st))"

text \<open>
  The cascade of a deletion. \<open>gone\<close> are the ids of the rows just deleted; the rows that
  reference one of them are deleted in turn, and so on with their ids, until no row
  references a deleted one. Each round with something to delete shortens the table.
\<close>

definition refers :: "string list \<Rightarrow> Folder \<Rightarrow> bool" where
  "refers gone f = (case fo_parent_id f of None \<Rightarrow> False | Some p \<Rightarrow> p \<in> set gone)"

lemma cascade_shorter:
  "filter (refers gone) tbl \<noteq> [] \<Longrightarrow> length (filter (\<lambda>f. \<not> refers gone f) tbl) < length tbl"
  by (induction tbl) (auto simp: less_Suc_eq_le split: if_splits)

function cascade :: "string list \<Rightarrow> Folder list \<Rightarrow> Folder list" where
  "cascade gone tbl =
     (if filter (refers gone) tbl = [] then tbl
      else cascade (map fo_id (filter (refers gone) tbl)) (filter (\<lambda>f. \<not> refers gone f) tbl))"
  by pat_completeness auto
termination
  by (relation "measure (\<lambda>(gone, tbl). length tbl)") (simp_all add: cascade_shorter)

declare cascade.simps [simp del]

text \<open>
  \<^verbatim>\<open>deleteFolder(id)\<close>: \<^verbatim>\<open>DELETE FROM fm_folders WHERE id = ?\<close> on the rows the session
  sees, then the cascade over \<^verbatim>\<open>fm_folders\<close> and, for every folder deleted, over
  \<^verbatim>\<open>fm_files\<close>. Deleting no row is not an error. The function makes no call to the
  storage bucket and has no test on the folder it is given.
\<close>

definition deleteFolder :: "string option \<Rightarrow> string \<Rightarrow> Store \<Rightarrow> api_error + Store" where
  "deleteFolder session i st =
     (let hit = filter (\<lambda>f. fo_id f = i) (visible session (fm_folders st));
          rest = filter (\<lambda>f. f \<notin> set hit) (fm_folders st);
          kept = cascade (map fo_id hit) rest;
          removed = filter (\<lambda>f. f \<notin> set kept) (fm_folders st)
      in Inr (st\<lparr>fm_folders := kept,
                 fm_files := filter (\<lambda>x. fi_folder_id x \<notin> set (map fo_id removed)) (fm_files st)\<rparr>))"

text \<open>
  \<^verbatim>\<open>uploadFile(file, folderId)\<close>. A browser \<^verbatim>\<open>File\<close> has a name, a declared type and its
  bytes; its \<^verbatim>\<open>size\<close> is their number. \<open>fileId\<close> is the generated uuid and \<open>now\<close> the
  reading of \<^verbatim>\<open>Date.now()\<close>. The bytes are stored first (an existing object is not
  overwritten), so the state is returned also when the insert of the row then fails.
\<close>

record Upload =
  up_name :: string
  up_type :: string
  up_bytes :: string

fun show_nat :: "nat \<Rightarrow> string" where
  "show_nat n =
     (if n < 10 then [''0123456789'' ! n]
      else show_nat (n div 10) @ [''0123456789'' ! (n mod 10)])"

declare show_nat.simps [simp del]

definition up_size :: "Upload \<Rightarrow> nat" where
  "up_size file = length (up_bytes file)"

definition checksumOf :: "Upload \<Rightarrow> nat \<Rightarrow> string" where
  "checksumOf file now = show_nat (up_size file) @ ''_'' @ up_name file @ ''_'' @ show_nat now"

definition insertFile :: "FileRow \<Rightarrow> Store \<Rightarrow> api_error + (FileRow \<times> Store)" where
  "insertFile row st =
     (if fi_id row \<in> set (map fi_id (fm_files st)) then Inl PostgrestError
      else (case lookupFolder (fm_folders st) (fi_folder_id row) of
              None \<Rightarrow> Inl PostgrestError
            | Some g \<Rightarrow> Inr (row, st\<lparr>fm_files := fm_files st @ [row]\<rparr>)))"

definition uploadFile ::
  "string option \<Rightarrow> string \<Rightarrow> nat \<Rightarrow> Upload \<Rightarrow> string \<Rightarrow> Store \<Rightarrow> (api_error + FileRow) \<times> Store" where
  "uploadFile session fileId now file folderId st =
     (case session of
        None \<Rightarrow> (Inl NotAuthenticated, st)
      | Some uid \<Rightarrow>
          (let storagePath = uid @ ''/'' @ fileId @ ''_'' @ up_name file in
           if storagePath \<in> set (map fst (bucket st)) then (Inl StorageError, st)
           else
             (let st1 = st\<lparr>bucket := bucket st @ [(storagePath, up_bytes file)]\<rparr>;
                  checksum = checksumOf file now
              in case insertFile \<lparr>fi_id = fileId, fi_name = up_name file, fi_size = up_size file,
                                   fi_checksum = checksum, fi_folder_id = folderId,
                                   fi_user_id = uid, fi_storage_path = storagePath,
                                   fi_mime_type = up_type file, fi_created_at = now,
                                   fi_updated_at = now\<rparr> st1 of
                   Inl e \<Rightarrow> (Inl e, st1)
                 | Inr (row, st2) \<Rightarrow> (Inr row, st2))))"

text \<open>Reading a file row back by its id, as the listing queries do under row level
  security.\<close>

definition getFile :: "string option \<Rightarrow> string \<Rightarrow> Store \<Rightarrow> api_error + FileRow" where
  "getFile session i st = single (filter (\<lambda>x. fi_id x = i) (visibleFiles session (fm_files st)))"

text \<open>\<^verbatim>\<open>deleteFile(id)\<close>: fetch the storage path, remove the object from the bucket (a
  storage error is only logged), delete the row.\<close>

definition deleteFile :: "string option \<Rightarrow> string \<Rightarrow> Store \<Rightarrow> api_error + Store" where
  "deleteFile session i st =
     (case getFile session i st of
        Inl e \<Rightarrow> Inl e
      | Inr file \<Rightarrow>
          Inr (st\<lparr>bucket := filter (\<lambda>ob. fst ob \<noteq> fi_storage_path file) (bucket st),
                  fm_files := filter (\<lambda>x. \<not> (fi_id x = i \<and> Some (fi_user_id x) = session))
                                (fm_files st)\<rparr>))"

text \<open>\<^verbatim>\<open>moveFile(fileId, newFolderId)\<close>: fetch the row, then upsert it with the new folder;
  the upsert meets the existing id and updates that row, the target folder has to exist, and
  the trigger on updates stamps \<^verbatim>\<open>updated_at\<close>.\<close>

definition moveFile ::
  "string option \<Rightarrow> string \<Rightarrow> string \<Rightarrow> nat \<Rightarrow> Store \<Rightarrow> api_error + (FileRow \<times> Store)" where
  "moveFile session fileId newFolderId now st =
     (case getFile session fileId st of
        Inl e \<Rightarrow> Inl e
      | Inr currentFile \<Rightarrow>
          (case lookupFolder (fm_folders st) newFolderId of
             None \<Rightarrow> Inl PostgrestError
           | Some g \<Rightarrow>
               Inr (currentFile\<lparr>fi_folder_id := newFolderId, fi_updated_at := now\<rparr>,
                    st\<lparr>fm_files :=
                         map (\<lambda>x. if fi_id x = fileId
                                  then currentFile\<lparr>fi_folder_id := newFolderId, fi_updated_at := now\<rparr>
                                  else x) (fm_files st)\<rparr>)))"

text \<open>
  \<^verbatim>\<open>getFolderBreadcrumbs(folderId)\<close>. \<open>split\<close> is JavaScript's \<^verbatim>\<open>String.split\<close> on one
  character; the \<^verbatim>\<open>filter\<close> after it drops the empty parts. The folders fetched are the
  visible rows whose \<^emph>\<open>name\<close> is one of the parts, in the order of their paths (strings
  compared character by character; rows with equal paths keep their table order). A crumb
  is the triple of id, name and path.
\<close>

fun split :: "char \<Rightarrow> string \<Rightarrow> string list" where
  "split c [] = [[]]"
| "split c (x # xs) =
     (if x = c then [] # split c xs
      else (case split c xs of [] \<Rightarrow> [[x]] | w # ws \<Rightarrow> (x # w) # ws))"

type_synonym crumb = "string \<times> string \<times> string"

definition crumbOf :: "Folder \<Rightarrow> crumb" where
  "crumbOf f = (fo_id f, fo_name f, fo_path f)"

definition getFolderBreadcrumbs :: "string option \<Rightarrow> string \<Rightarrow> Store \<Rightarrow> api_error + crumb list" where
  "getFolderBreadcrumbs session folderId st =
     (case single (filter (\<lambda>f. fo_id f = folderId) (visible session (fm_folders st))) of
        Inl e \<Rightarrow> Inl e
      | Inr folder \<Rightarrow>
          (let pathParts = filter (\<lambda>part. part \<noteq> []) (split CHR ''/'' (fo_path folder));
               pathFolders =
                 (if pathParts \<noteq> []
                  then sort_key fo_path
                         (filter (\<lambda>f. fo_name f \<in> set pathParts) (visible session (fm_folders st)))
                  else [])
           in Inr (map crumbOf pathFolders @ [(folderId, fo_name folder, fo_path folder)])))"

text \<open>
  \<^verbatim>\<open>getFolderParents(folderId)\<close> walks the parent references and returns the ids of the
  ancestors, the root first. Its \<^verbatim>\<open>while\<close> loop has no bound of its own, so the walk takes
  a number of rounds and is \<open>None\<close> when they do not suffice.
\<close>

fun walkParents :: "nat \<Rightarrow> string option \<Rightarrow> Folder list \<Rightarrow> string \<Rightarrow> string list \<Rightarrow> string list option" where
  "walkParents 0 session tbl currentId parents = None"
| "walkParents (Suc n) session tbl currentId parents =
     (if currentId = [] then Some parents
      else (case single (filter (\<lambda>f. fo_id f = currentId) (visible session tbl)) of
              Inl e \<Rightarrow> Some parents
            | Inr folder \<Rightarrow>
                if truthy (fo_parent_id folder)
                then (case fo_parent_id folder of
                        None \<Rightarrow> Some parents
                      | Some p \<Rightarrow> walkParents n session tbl p (p # parents))
                else Some parents))"

definition getFolderParents :: "nat \<Rightarrow> string option \<Rightarrow> string \<Rightarrow> Store \<Rightarrow> string list option" where
  "getFolderParents rounds session folderId st =
     walkParents rounds session (fm_folders st) folderId []"

subsection \<open>Histories of the store\<close>

text \<open>The operations that write to the store, and a history of them from the empty
  store. An operation that fails leaves the store as it was, except for the bytes an
  upload had already stored.\<close>

datatype op =
    SignUp string string nat
  | CreateFolder "string option" string nat string "string option"
  | DeleteFolder "string option" string
  | UploadFile "string option" string nat Upload string
  | DeleteFile "string option" string
  | MoveFile "string option" string string nat

fun apply_op :: "op \<Rightarrow> Store \<Rightarrow> Store" where
  "apply_op (SignUp uid newId now) st =
     (case create_user_root_folder uid newId now st of Inl e \<Rightarrow> st | Inr (f, st') \<Rightarrow> st')"
| "apply_op (CreateFolder session newId now name parentId) st =
     (case createFolder session newId now name parentId st of Inl e \<Rightarrow> st | Inr (f, st') \<Rightarrow> st')"
| "apply_op (DeleteFolder session i) st =
     (case deleteFolder session i st of Inl e \<Rightarrow> st | Inr st' \<Rightarrow> st')"
| "apply_op (UploadFile session fileId now file folderId) st =
     snd (uploadFile session fileId now file folderId st)"
| "apply_op (DeleteFile session i) st =
     (case deleteFile session i st of Inl e \<Rightarrow> st | Inr st' \<Rightarrow> st')"
| "apply_op (MoveFile session fileId newFolderId now) st =
     (case moveFile session fileId newFolderId now st of Inl e \<Rightarrow> st | Inr (x, st') \<Rightarrow> st')"

definition history :: "op list \<Rightarrow> Store" where
  "history ops = foldl (\<lambda>st x. apply_op x st) empty_store ops"

text \<open>
  The path of a folder as its live parent chain gives it: \<^verbatim>\<open>"/"\<close> for a folder without
  parent, otherwise the path so obtained for the parent, followed by the parent's name
  and \<^verbatim>\<open>"/"\<close>. The chain is followed for a number of rounds; \<open>None\<close> when a parent is
  missing or the rounds do not reach a root.
\<close>

fun livePath :: "nat \<Rightarrow> Folder list \<Rightarrow> Folder \<Rightarrow> string option" where
  "livePath 0 tbl f = None"
| "livePath (Suc n) tbl f =
     (case fo_parent_id f of
        None \<Rightarrow> Some ''/''
      | Some p \<Rightarrow>
          (case lookupFolder tbl p of
             None \<Rightarrow> None
           | Some g \<Rightarrow> map_option (\<lambda>s. s @ fo_name g @ ''/'') (livePath n tbl g)))"

text \<open>The stored path of one folder agrees with its parent row.\<close>

definition path_ok :: "Folder list \<Rightarrow> Folder \<Rightarrow> bool" where
  "path_ok tbl f =
     (case fo_parent_id f of
        None \<Rightarrow> fo_path f = ''/''
      | Some p \<Rightarrow>
          (case lookupFolder tbl p of
             None \<Rightarrow> False
           | Some g \<Rightarrow> fo_path f = fo_path g @ fo_name g @ ''/''))"

definition paths_ok :: "Folder list \<Rightarrow> bool" where
  "paths_ok tbl = (distinct (map fo_id tbl) \<and> list_all (path_ok tbl) tbl)"

text \<open>Every file row references a folder row that exists.\<close>

definition files_ok :: "Store \<Rightarrow> bool" where
  "files_ok st = list_all (\<lambda>x. lookupFolder (fm_folders st) (fi_folder_id x) \<noteq> None) (fm_files st)"

text \<open>The folder tree component (FolderTree.tsx, \<^verbatim>\<open>renderFolder\<close>) renders the delete button
  of a folder only under \<^verbatim>\<open>folder.name !== 'Root'\<close>.\<close>

definition deleteOffered :: "Folder \<Rightarrow> bool" where
  "deleteOffered folder = (fo_name folder \<noteq> ''Root'')"

section \<open>Example inputs\<close>

definition d0 :: zip_data where
  "d0 = \<lparr>fileIds = [''f1''], userId = ''u''\<rparr>"

definition ev_two :: "event list" where
  "ev_two = [Submit ''j1'' d0 1, Submit ''j2'' d0 2, Settle 0 True 3, Resume 0]"

definition st_two :: Sched where
  "st_two =
     \<lparr>queue = \<lparr>jobs =
        [\<lparr>jid = ''j1'', jtype = Zip, jdata = d0, status = Completed, createdAt = 1,
            processedAt = Some 3\<rparr>,
         \<lparr>jid = ''j2'', jtype = Zip, jdata = d0, status = Processing, createdAt = 2,
            processedAt = None\<rparr>],
        processing = True\<rparr>,
      suspended = [InBody ''j2'']\<rparr>"

definition j1_done :: QueueJob where
  "j1_done = \<lparr>jid = ''j1'', jtype = Zip, jdata = d0, status = Completed, createdAt = 1,
     processedAt = Some 3\<rparr>"

definition j2_pending :: QueueJob where
  "j2_pending = \<lparr>jid = ''j2'', jtype = Zip, jdata = d0, status = Pending, createdAt = 2,
     processedAt = None\<rparr>"

definition ev_head :: "event list" where
  "ev_head = [Submit ''j1'' d0 1, Submit ''j2'' d0 2, Settle 0 True 3]"

definition st_head :: Sched where
  "st_head = \<lparr>queue = \<lparr>jobs = [j1_done, j2_pending], processing = True\<rparr>,
     suspended = [AfterBody]\<rparr>"

definition st_head2 :: Sched where
  "st_head2 =
     \<lparr>queue = \<lparr>jobs =
        [j1_done,
         \<lparr>jid = ''j2'', jtype = Zip, jdata = d0, status = Completed, createdAt = 2,
            processedAt = Some 6\<rparr>,
         \<lparr>jid = ''j3'', jtype = Zip, jdata = d0, status = Pending, createdAt = 4,
            processedAt = None\<rparr>,
         \<lparr>jid = ''j4'', jtype = Zip, jdata = d0, status = Pending, createdAt = 5,
            processedAt = None\<rparr>],
        processing = True\<rparr>,
      suspended = [AfterBody]\<rparr>"






definition file_a :: DbFile where
  "file_a = \<lparr>f_id = ''a'', f_name = ''a.pdf'', f_size = 10, f_checksum = ''c1'',
     f_folder_id = ''d1'', f_user_id = ''u'', f_path = ''uploads/a'',
     f_mime_type = ''application/pdf'', f_created_at = 1, f_updated_at = 1\<rparr>"

definition file_b :: DbFile where
  "file_b = \<lparr>f_id = ''b'', f_name = ''b.pdf'', f_size = 20, f_checksum = ''c2'',
     f_folder_id = ''d2'', f_user_id = ''v'', f_path = ''uploads/b'',
     f_mime_type = ''application/pdf'', f_created_at = 2, f_updated_at = 2\<rparr>"

definition file_c :: DbFile where
  "file_c = \<lparr>f_id = ''c'', f_name = ''c.pdf'', f_size = 30, f_checksum = ''c3'',
     f_folder_id = ''d1'', f_user_id = ''u'', f_path = ''uploads/c'',
     f_mime_type = ''application/pdf'', f_created_at = 3, f_updated_at = 3\<rparr>"

definition file_e :: DbFile where
  "file_e = \<lparr>f_id = ''e'', f_name = ''e.pdf'', f_size = 40, f_checksum = ''c4'',
     f_folder_id = ''d1'', f_user_id = ''u'', f_path = ''uploads/e'',
     f_mime_type = ''application/pdf'', f_created_at = 4, f_updated_at = 4\<rparr>"

definition job_j :: ZipJob where
  "job_j = \<lparr>z_id = ''j'', z_user_id = ''u'', z_file_ids = ''[a,b,c]'', z_status = Pending,
     z_download_url = None, z_created_at = 7, z_completed_at = None\<rparr>"

definition pdf_a :: Upload where
  "pdf_a = \<lparr>up_name = ''a.pdf'', up_type = ''application/pdf'', up_bytes = ''%PDF''\<rparr>"

definition pdf_other :: Upload where
  "pdf_other = \<lparr>up_name = ''a.pdf'', up_type = ''application/pdf'', up_bytes = ''%XYZ''\<rparr>"

definition ops_tree :: "op list" where
  "ops_tree =
     [SignUp ''u'' ''r'' 1,
      CreateFolder (Some ''u'') ''d'' 2 ''Docs'' (Some ''r''),
      CreateFolder (Some ''u'') ''p'' 3 ''Reports'' (Some ''d''),
      UploadFile (Some ''u'') ''f1'' 4 pdf_a ''p'']"

definition ops_names :: "op list" where
  "ops_names =
     [SignUp ''u'' ''r'' 1,
      CreateFolder (Some ''u'') ''a'' 2 ''A'' (Some ''r''),
      CreateFolder (Some ''u'') ''b'' 3 ''B'' (Some ''a''),
      CreateFolder (Some ''u'') ''c'' 4 ''C'' (Some ''r''),
      CreateFolder (Some ''u'') ''a2'' 5 ''A'' (Some ''c'')]"

definition root_r :: Folder where
  "root_r = \<lparr>fo_id = ''r'', fo_name = ''Root'', fo_parent_id = None, fo_user_id = ''u'',
     fo_path = ''/'', fo_created_at = 1\<rparr>"

definition docs_d :: Folder where
  "docs_d = \<lparr>fo_id = ''d'', fo_name = ''Docs'', fo_parent_id = Some ''r'', fo_user_id = ''u'',
     fo_path = ''/Root/'', fo_created_at = 2\<rparr>"

definition reports_p :: Folder where
  "reports_p = \<lparr>fo_id = ''p'', fo_name = ''Reports'', fo_parent_id = Some ''d'',
     fo_user_id = ''u'', fo_path = ''/Root/Docs/'', fo_created_at = 3\<rparr>"

definition q1_q :: Folder where
  "q1_q = \<lparr>fo_id = ''q'', fo_name = ''Q1'', fo_parent_id = Some ''p'', fo_user_id = ''u'',
     fo_path = ''/Root/Docs/Reports/'', fo_created_at = 5\<rparr>"

definition row_f1 :: FileRow where
  "row_f1 = \<lparr>fi_id = ''f1'', fi_name = ''a.pdf'', fi_size = 4, fi_checksum = ''4_a.pdf_4'',
     fi_folder_id = ''p'', fi_user_id = ''u'', fi_storage_path = ''u/f1_a.pdf'',
     fi_mime_type = ''application/pdf'', fi_created_at = 4, fi_updated_at = 4\<rparr>"

definition st_tree :: Store where
  "st_tree = \<lparr>fm_folders = [root_r, docs_d, reports_p], fm_files = [row_f1],
     bucket = [(''u/f1_a.pdf'', ''%PDF'')]\<rparr>"

definition st_q1 :: Store where
  "st_q1 = \<lparr>fm_folders = [root_r, docs_d, reports_p, q1_q], fm_files = [row_f1],
     bucket = [(''u/f1_a.pdf'', ''%PDF'')]\<rparr>"

section \<open>Properties of the job queue\<close>

lemma jid_touch [simp]: "jid (touch s t job) = jid job"
  by (simp add: touch_def split: option.splits)

lemma status_touch [simp]: "status (touch s t job) = s"
  by (simp add: touch_def split: option.splits)

lemma map_jid_update [simp]: "map jid (updateJobStatus i s t js) = map jid js"
  by (induction js) (simp_all add: updateJobStatus_def)

lemma findPending_Some:
  "findPending js = Some job \<Longrightarrow> job \<in> set js \<and> status job = Pending"
  unfolding findPending_def by (induction js) (auto split: if_splits)

lemma findPending_None:
  "findPending js = None \<longleftrightarrow> pendingCount js = 0"
  unfolding findPending_def pendingCount_def
  by (induction js) auto

subsection \<open>The invariant of the interleaved runs\<close>

lemma later_refl: "later j j"
  by (simp add: later_def advance_def)

lemma list_all2_later_refl: "list_all2 later js js"
  by (simp add: list_all2_refl later_refl)

lemma map_set_fresh: "i \<notin> set (map jid js) \<Longrightarrow> map_set js i v = js @ [v]"
  by (induction js) auto

lemma update_other: "i \<notin> set (map jid js) \<Longrightarrow> updateJobStatus i s t js = js"
  by (induction js) (auto simp: updateJobStatus_def)

lemma update_split:
  "distinct (map jid (ts @ j # ps)) \<Longrightarrow>
   updateJobStatus (jid j) s t (ts @ j # ps) = ts @ touch s t j # ps"
proof -
  assume d: "distinct (map jid (ts @ j # ps))"
  then have "jid j \<notin> set (map jid ts)" "jid j \<notin> set (map jid ps)" by auto
  then have "updateJobStatus (jid j) s t ts = ts" "updateJobStatus (jid j) s t ps = ps"
    by (simp_all add: update_other)
  then show ?thesis by (simp add: updateJobStatus_def)
qed

text \<open>On a list that is a Map, one entry per id, \<open>updateJobStatus\<close> is the source's
  \<^verbatim>\<open>get\<close>, assignment and \<^verbatim>\<open>set\<close>.\<close>

lemma updateJobStatus_get_set:
  "distinct (map jid js) \<Longrightarrow>
   updateJobStatus i s t js =
     (case getJob js i of None \<Rightarrow> js | Some job \<Rightarrow> map_set js i (touch s t job))"
proof (induction js)
  case Nil
  then show ?case by (simp add: updateJobStatus_def getJob_def)
next
  case (Cons a js)
  show ?case
  proof (cases "jid a = i")
    case True
    with Cons.prems have "i \<notin> set (map jid js)" by auto
    then have "updateJobStatus i s t js = js" by (rule update_other)
    with True show ?thesis by (simp add: updateJobStatus_def getJob_def)
  next
    case False
    from Cons.prems have "distinct (map jid js)" by simp
    from Cons.IH [OF this] False show ?thesis
      by (simp add: updateJobStatus_def getJob_def split: option.splits)
  qed
qed

lemma findPending_terminal:
  "\<forall>j \<in> set ts. terminal (status j) \<Longrightarrow> findPending (ts @ ps) = findPending ps"
  by (induction ts) (auto simp: findPending_def terminal_def)

lemma findPending_Cons_pending: "status p = Pending \<Longrightarrow> findPending (p # ps) = Some p"
  by (simp add: findPending_def)

lemma findPending_Cons_other: "status p \<noteq> Pending \<Longrightarrow> findPending (p # ps) = findPending ps"
  by (simp add: findPending_def)

lemma findPending_Nil: "findPending [] = None"
  by (simp add: findPending_def)

lemma qshapeE:
  assumes "qshape s ts ps"
  obtains (idle) "suspended s = []" "\<not> processing (queue s)" "jobs (queue s) = ts" "ps = []"
  | (body) j where "suspended s = [InBody (jid j)]" "processing (queue s)"
      "status j = Processing" "jobs (queue s) = ts @ j # ps"
  | (after) "suspended s = [AfterBody]" "processing (queue s)" "jobs (queue s) = ts @ ps"
  using assms unfolding qshape_def by blast

lemma submit_inv:
  assumes inv: "qinv s" and fresh: "i \<notin> set (map jid (jobs (queue s)))"
  shows "qinv (addJob i d now s)
     \<and> (\<exists>x. jid x = i \<and> jobs (queue (addJob i d now s)) = jobs (queue s) @ [x])"
proof -
  from inv obtain ts ps where dist: "distinct (map jid (jobs (queue s)))"
    and sh: "qshape s ts ps" unfolding qinv_def by blast
  from sh have T: "\<forall>j \<in> set ts. terminal (status j)" and P: "\<forall>j \<in> set ps. status j = Pending"
    unfolding qshape_def by blast+
  let ?n = "newJob i d now"
  have n: "jid ?n = i" "status ?n = Pending" by (simp_all add: newJob_def)
  have set: "map_set (jobs (queue s)) i ?n = jobs (queue s) @ [?n]"
    using fresh by (rule map_set_fresh)
  from sh show ?thesis
  proof (cases rule: qshapeE)
    case idle
    have fp: "findPending (ts @ [?n]) = Some ?n"
      using T n by (simp add: findPending_terminal findPending_Cons_pending)
    have d2: "distinct (map jid (ts @ ?n # []))"
      using dist fresh idle n by simp
    have st: "startJob ?n (ts @ [?n]) = ts @ [touch Processing None ?n]"
      using update_split [OF d2, of Processing None] n by (simp add: startJob_def)
    have res: "addJob i d now s =
        s\<lparr>queue := \<lparr>jobs = ts @ [touch Processing None ?n], processing = True\<rparr>,
          suspended := [InBody i]\<rparr>"
      using idle set fp st n by (simp add: addJob_def callProcessQueue_def pass_def)
    have "qshape (addJob i d now s) ts []"
      unfolding qshape_def res using T n
      by (auto intro!: exI [of _ "touch Processing None ?n"])
    moreover have "distinct (map jid (jobs (queue (addJob i d now s))))"
      unfolding res using d2 by simp
    ultimately show ?thesis unfolding qinv_def res using idle n by auto
  next
    case (body j)
    have res: "addJob i d now s = s\<lparr>queue := (queue s)\<lparr>jobs := jobs (queue s) @ [?n]\<rparr>\<rparr>"
      using body set by (simp add: addJob_def callProcessQueue_def)
    have "qshape (addJob i d now s) ts (ps @ [?n])"
      unfolding qshape_def res using T P n body by auto
    moreover have "distinct (map jid (jobs (queue (addJob i d now s))))"
      unfolding res using dist fresh n by simp
    ultimately show ?thesis unfolding qinv_def res using n by auto
  next
    case after
    have res: "addJob i d now s = s\<lparr>queue := (queue s)\<lparr>jobs := jobs (queue s) @ [?n]\<rparr>\<rparr>"
      using after set by (simp add: addJob_def callProcessQueue_def)
    have "qshape (addJob i d now s) ts (ps @ [?n])"
      unfolding qshape_def res using T P n after by auto
    moreover have "distinct (map jid (jobs (queue (addJob i d now s))))"
      unfolding res using dist fresh n by simp
    ultimately show ?thesis unfolding qinv_def res using n by auto
  qed
qed

lemma list_all2_later_mid:
  "later j j' \<Longrightarrow> list_all2 later (ts @ j # ps) (ts @ j' # ps)"
  by (intro list_all2_appendI) (simp_all add: list_all2_later_refl)

lemma settle_inv:
  assumes inv: "qinv s" and f: "fire (Settle k r now) s = Some s'"
  shows "qinv s' \<and> list_all2 later (jobs (queue s)) (jobs (queue s'))"
proof -
  from inv obtain ts ps where dist: "distinct (map jid (jobs (queue s)))"
    and sh: "qshape s ts ps" unfolding qinv_def by blast
  from sh have T: "\<forall>j \<in> set ts. terminal (status j)" and P: "\<forall>j \<in> set ps. status j = Pending"
    unfolding qshape_def by blast+
  from sh show ?thesis
  proof (cases rule: qshapeE)
    case idle
    with f show ?thesis by simp
  next
    case after
    with f show ?thesis by (cases k) simp_all
  next
    case (body j)
    from f body have k: "k = 0" by (cases k) simp_all
    let ?j' = "touch (if r then Completed else Failed) (Some now) j"
    have fin: "finishJob (jid j) r now (ts @ j # ps) = ts @ ?j' # ps"
      using update_split [of ts j ps] dist body by (simp add: finishJob_def)
    have res: "s' = s\<lparr>queue := (queue s)\<lparr>jobs := ts @ ?j' # ps\<rparr>, suspended := [AfterBody]\<rparr>"
      using f body k fin by simp
    have tm: "terminal (status ?j')" by (simp add: terminal_def)
    have "qshape s' (ts @ [?j']) ps"
      unfolding qshape_def res using T P body tm by auto
    moreover have "distinct (map jid (jobs (queue s')))"
      unfolding res using dist body by simp
    moreover have "later j ?j'"
      using body by (simp add: later_def advance_def terminal_def)
    then have "list_all2 later (jobs (queue s)) (jobs (queue s'))"
      unfolding res using body by (simp add: list_all2_later_mid)
    ultimately show ?thesis unfolding qinv_def by blast
  qed
qed

lemma resume_inv:
  assumes inv: "qinv s" and f: "fire (Resume k) s = Some s'"
  shows "qinv s' \<and> list_all2 later (jobs (queue s)) (jobs (queue s'))"
proof -
  from inv obtain ts ps where dist: "distinct (map jid (jobs (queue s)))"
    and sh: "qshape s ts ps" unfolding qinv_def by blast
  from sh have T: "\<forall>j \<in> set ts. terminal (status j)" and P: "\<forall>j \<in> set ps. status j = Pending"
    unfolding qshape_def by blast+
  from sh show ?thesis
  proof (cases rule: qshapeE)
    case idle
    with f show ?thesis by simp
  next
    case (body j)
    with f show ?thesis by (cases k) simp_all
  next
    case after
    from f after have k: "k = 0" by (cases k) simp_all
    show ?thesis
    proof (cases ps)
      case Nil
      have fp: "findPending (jobs (queue s)) = None"
        using after Nil T findPending_terminal [of ts "[]"] by (simp add: findPending_Nil)
      have res: "s' = s\<lparr>queue := \<lparr>jobs = ts, processing = False\<rparr>, suspended := []\<rparr>"
        using f after k fp Nil by (simp add: pass_def drop_nth_def)
      have "qshape s' ts []"
        unfolding qshape_def res using T by simp
      moreover have "distinct (map jid (jobs (queue s')))"
        unfolding res using dist after Nil by simp
      moreover have "list_all2 later (jobs (queue s)) (jobs (queue s'))"
        unfolding res using after Nil by (simp add: list_all2_later_refl)
      ultimately show ?thesis unfolding qinv_def by blast
    next
      case (Cons p ps')
      with P have pp: "status p = Pending" and P': "\<forall>j \<in> set ps'. status j = Pending" by simp_all
      have fp: "findPending (jobs (queue s)) = Some p"
        using after Cons T pp by (simp add: findPending_terminal findPending_Cons_pending)
      let ?p' = "touch Processing None p"
      have st: "startJob p (ts @ p # ps') = ts @ ?p' # ps'"
        using update_split [of ts p ps'] dist after Cons by (simp add: startJob_def)
      have res: "s' = s\<lparr>queue := (queue s)\<lparr>jobs := ts @ ?p' # ps'\<rparr>, suspended := [InBody (jid p)]\<rparr>"
        using f after k fp Cons st by (simp add: pass_def)
      have "qshape s' ts ps'"
        unfolding qshape_def res using T P' after
        by (auto intro!: exI [of _ ?p'])
      moreover have "distinct (map jid (jobs (queue s')))"
        unfolding res using dist after Cons by simp
      moreover have "later p ?p'"
        using pp by (simp add: later_def advance_def terminal_def)
      then have "list_all2 later (jobs (queue s)) (jobs (queue s'))"
        unfolding res using after Cons by (simp add: list_all2_later_mid)
      ultimately show ?thesis unfolding qinv_def by blast
    qed
  qed
qed

lemma advance_rank: "advance a b \<Longrightarrow> rank a \<le> rank b"
  by (cases a; cases b) (simp_all add: advance_def terminal_def)

lemma later_follows: "later j j' \<Longrightarrow> follows j j'"
  by (simp add: later_def follows_def advance_rank)

lemma follows_refl: "follows j j"
  by (simp add: follows_def)

lemma follows_trans: "follows a b \<Longrightarrow> follows b c \<Longrightarrow> follows a c"
  by (auto simp: follows_def)

lemma list_all2_later_jid: "list_all2 later xs ys \<Longrightarrow> map jid ys = map jid xs"
  by (induction rule: list_all2_induct) (simp_all add: later_def)

lemma step_inv:
  assumes inv: "qinv s" and f: "fire e s = Some s'"
    and fresh: "set (submitted [e]) \<inter> set (map jid (jobs (queue s))) = {}"
  shows "qinv s' \<and> map jid (jobs (queue s')) = map jid (jobs (queue s)) @ submitted [e]
     \<and> (\<exists>pre extra. jobs (queue s') = pre @ extra \<and> list_all2 later (jobs (queue s)) pre)"
proof (cases e)
  case (Submit i d now)
  with fresh have fr: "i \<notin> set (map jid (jobs (queue s)))" by simp
  from f Submit have s': "s' = addJob i d now s" by simp
  from submit_inv [OF inv fr, of d now] obtain x where
    q: "qinv s'" and x: "jid x = i" "jobs (queue s') = jobs (queue s) @ [x]"
    unfolding s' by blast
  have "list_all2 later (jobs (queue s)) (jobs (queue s))" by (rule list_all2_later_refl)
  with q x Submit show ?thesis by auto
next
  case (Settle k r now)
  from settle_inv [OF inv f [unfolded Settle]]
  have q: "qinv s'" and l: "list_all2 later (jobs (queue s)) (jobs (queue s'))" by simp_all
  from l have "jobs (queue s') = jobs (queue s') @ [] \<and> list_all2 later (jobs (queue s)) (jobs (queue s'))"
    by simp
  then have "\<exists>pre extra. jobs (queue s') = pre @ extra \<and> list_all2 later (jobs (queue s)) pre"
    by blast
  with q list_all2_later_jid [OF l] Settle show ?thesis by simp
next
  case (Resume k)
  from resume_inv [OF inv f [unfolded Resume]]
  have q: "qinv s'" and l: "list_all2 later (jobs (queue s)) (jobs (queue s'))" by simp_all
  from l have "jobs (queue s') = jobs (queue s') @ [] \<and> list_all2 later (jobs (queue s)) (jobs (queue s'))"
    by simp
  then have "\<exists>pre extra. jobs (queue s') = pre @ extra \<and> list_all2 later (jobs (queue s)) pre"
    by blast
  with q list_all2_later_jid [OF l] Resume show ?thesis by simp
qed

lemma evolves_refl: "evolves js js"
proof -
  have "js = js @ [] \<and> list_all2 follows js js"
    by (simp add: list_all2_refl follows_refl)
  then show ?thesis unfolding evolves_def by blast
qed

lemma list_all2_follows_trans:
  "list_all2 follows xs ys \<Longrightarrow> list_all2 follows ys zs \<Longrightarrow> list_all2 follows xs zs"
  by (rule list_all2_trans [of follows follows follows]) (auto intro: follows_trans)

lemma evolves_trans:
  assumes "evolves a b" and "evolves b c"
  shows "evolves a c"
proof -
  from assms(1) obtain p1 e1 where b: "b = p1 @ e1" and l1: "list_all2 follows a p1"
    unfolding evolves_def by blast
  from assms(2) obtain p2 e2 where c: "c = p2 @ e2" and l2: "list_all2 follows (p1 @ e1) p2"
    unfolding evolves_def b by blast
  from l2 obtain u v where p2: "p2 = u @ v" and lu: "list_all2 follows p1 u"
    by (auto simp: list_all2_append1)
  from l1 lu have "list_all2 follows a u" by (rule list_all2_follows_trans)
  moreover have "c = u @ (v @ e2)" by (simp add: c p2)
  ultimately show ?thesis unfolding evolves_def by blast
qed

lemma later_evolves:
  assumes "jobs' = pre @ extra" and "list_all2 later js pre"
  shows "evolves js jobs'"
proof -
  from assms(2) have "list_all2 follows js pre"
    by (rule list_all2_mono) (rule later_follows)
  with assms(1) show ?thesis unfolding evolves_def by blast
qed

lemma submitted_append: "submitted (xs @ ys) = submitted xs @ submitted ys"
  by (induction xs rule: submitted.induct) simp_all

lemma run_inv:
  "qinv s \<Longrightarrow> run es s = Some s' \<Longrightarrow> distinct (submitted es) \<Longrightarrow>
   set (submitted es) \<inter> set (map jid (jobs (queue s))) = {} \<Longrightarrow>
   qinv s' \<and> map jid (jobs (queue s')) = map jid (jobs (queue s)) @ submitted es
     \<and> evolves (jobs (queue s)) (jobs (queue s'))"
proof (induction es arbitrary: s)
  case Nil
  then show ?case by (simp add: evolves_refl)
next
  case (Cons e es)
  from Cons.prems(2) obtain s1 where f: "fire e s = Some s1" and r: "run es s1 = Some s'"
    by (auto split: option.splits)
  have sub: "submitted (e # es) = submitted [e] @ submitted es"
    using submitted_append [of "[e]" es] by simp
  from Cons.prems(4) sub have fr: "set (submitted [e]) \<inter> set (map jid (jobs (queue s))) = {}"
    by auto
  from step_inv [OF Cons.prems(1) f fr] obtain pre extra where
    q1: "qinv s1" and ids1: "map jid (jobs (queue s1)) = map jid (jobs (queue s)) @ submitted [e]"
    and ev: "jobs (queue s1) = pre @ extra" "list_all2 later (jobs (queue s)) pre"
    by blast
  from Cons.prems(3) sub have d: "distinct (submitted es)" by simp
  from Cons.prems(3,4) sub ids1
  have fr1: "set (submitted es) \<inter> set (map jid (jobs (queue s1))) = {}" by auto
  from Cons.IH [OF q1 r d fr1]
  have q': "qinv s'" and ids': "map jid (jobs (queue s')) = map jid (jobs (queue s1)) @ submitted es"
    and ev': "evolves (jobs (queue s1)) (jobs (queue s'))" by simp_all
  from later_evolves [OF ev] ev' have "evolves (jobs (queue s)) (jobs (queue s'))"
    by (rule evolves_trans)
  with q' ids' ids1 sub show ?case by simp
qed

lemma qinv_fresh: "qinv fresh_queue"
  by (simp add: qinv_def qshape_def fresh_queue_def)

lemma getJob_evolves:
  "list_all2 follows js pre \<Longrightarrow> getJob js i = Some j \<Longrightarrow>
   \<exists>j'. getJob (pre @ extra) i = Some j' \<and> follows j j'"
proof (induction arbitrary: j rule: list_all2_induct)
  case Nil
  then show ?case by (simp add: getJob_def)
next
  case (Cons x xs y ys)
  then show ?case by (auto simp: getJob_def follows_def split: if_splits)
qed


lemma qshape_fifo:
  assumes "qshape s ts ps"
  shows "sorted_wrt (\<lambda>a b. status b \<noteq> Pending \<longrightarrow> terminal (status a)) (jobs (queue s))"
    and "length (filter (\<lambda>j. status j = Processing) (jobs (queue s))) \<le> 1"
    and "length (suspended s) \<le> 1"
    and "processing (queue s) \<longleftrightarrow> suspended s \<noteq> []"
proof -
  from assms have T: "\<forall>j \<in> set ts. terminal (status j)" and P: "\<forall>j \<in> set ps. status j = Pending"
    unfolding qshape_def by blast+
  let ?R = "\<lambda>a b. status b \<noteq> Pending \<longrightarrow> terminal (status a)"
  have sT: "sorted_wrt ?R ts" using T by (induction ts) auto
  have sP: "sorted_wrt ?R ps" using P by (induction ps) auto
  have fT: "filter (\<lambda>j. status j = Processing) ts = []"
    using T by (auto simp: filter_empty_conv terminal_def)
  have fP: "filter (\<lambda>j. status j = Processing) ps = []"
    using P by (auto simp: filter_empty_conv)
  from assms show "sorted_wrt ?R (jobs (queue s))"
    by (cases rule: qshapeE) (use sT sP T P in \<open>auto simp: sorted_wrt_append\<close>)
  from assms show "length (filter (\<lambda>j. status j = Processing) (jobs (queue s))) \<le> 1"
    by (cases rule: qshapeE) (use fT fP in \<open>auto\<close>)
  from assms show "length (suspended s) \<le> 1"
    by (cases rule: qshapeE) auto
  from assms show "processing (queue s) \<longleftrightarrow> suspended s \<noteq> []"
    by (cases rule: qshapeE) auto
qed

text \<open>
  Claim C3. Take any run of submissions (with pairwise distinct job ids), settlements of job
  bodies and resumptions of the loop, from the empty queue. In the state reached the jobs
  are held in submission order; whenever a job has left the pending status, every job
  submitted before it is already completed or failed, so a job starts processing only after
  all earlier ones are terminal; at most one job is processing; and at most one invocation
  of the drain loop exists, the flag being set exactly when it does. A submission made
  while the flag is set starts no further invocation.
\<close>

theorem single_flight_fifo:
  assumes "run es fresh_queue = Some s" and "distinct (submitted es)"
  shows "map jid (jobs (queue s)) = submitted es
     \<and> (\<forall>a b. a < b \<longrightarrow> b < length (jobs (queue s)) \<longrightarrow> status (jobs (queue s) ! b) \<noteq> Pending
            \<longrightarrow> terminal (status (jobs (queue s) ! a)))
     \<and> length (filter (\<lambda>j. status j = Processing) (jobs (queue s))) \<le> 1
     \<and> length (suspended s) \<le> 1
     \<and> (processing (queue s) \<longleftrightarrow> suspended s \<noteq> [])
     \<and> (processing (queue s) \<longrightarrow> suspended (addJob i d now s) = suspended s)"
proof -
  have "set (submitted es) \<inter> set (map jid (jobs (queue fresh_queue))) = {}"
    by (simp add: fresh_queue_def)
  from run_inv [OF qinv_fresh assms this]
  have q: "qinv s" and ids: "map jid (jobs (queue s)) = submitted es"
    by (simp_all add: fresh_queue_def)
  from q obtain ts ps where sh: "qshape s ts ps" unfolding qinv_def by blast
  from qshape_fifo(1) [OF sh]
  have "\<forall>a b. a < b \<longrightarrow> b < length (jobs (queue s)) \<longrightarrow> status (jobs (queue s) ! b) \<noteq> Pending
            \<longrightarrow> terminal (status (jobs (queue s) ! a))"
    by (simp add: sorted_wrt_iff_nth_less)
  moreover have "processing (queue s) \<longrightarrow> suspended (addJob i d now s) = suspended s"
    by (simp add: addJob_def callProcessQueue_def)
  ultimately show ?thesis
    using ids qshape_fifo(2,3,4) [OF sh] by blast
qed

theorem single_flight_fifo_witness:
  "run ev_two fresh_queue = Some st_two \<and> distinct (submitted ev_two)
   \<and> map jid (jobs (queue st_two)) = [''j1'', ''j2'']
   \<and> map status (jobs (queue st_two)) = [Completed, Processing]
   \<and> terminal (status (jobs (queue st_two) ! 0))
   \<and> length (suspended st_two) \<le> 1
   \<and> suspended (addJob ''j3'' d0 9 st_two) = suspended st_two"
proof -
  have h1: "run ev_two fresh_queue = Some st_two"
    by (simp add: ev_two_def st_two_def fresh_queue_def addJob_def callProcessQueue_def pass_def
          findPending_def startJob_def finishJob_def updateJobStatus_def touch_def newJob_def
          drop_nth_def)
  have h2: "distinct (submitted ev_two)"
    by (simp add: ev_two_def)
  have h3: "(0::nat) < 1 \<and> 1 < length (jobs (queue st_two))
      \<and> status (jobs (queue st_two) ! 1) \<noteq> Pending \<and> processing (queue st_two)"
    by (simp add: st_two_def)
  from single_flight_fifo [OF h1 h2, of "''j3''" d0 9] h3
  have "terminal (status (jobs (queue st_two) ! 0))"
    and "length (suspended st_two) \<le> 1"
    and "suspended (addJob ''j3'' d0 9 st_two) = suspended st_two"
    by blast+
  moreover have "map jid (jobs (queue st_two)) = [''j1'', ''j2'']"
    and "map status (jobs (queue st_two)) = [Completed, Processing]"
    by (simp_all add: st_two_def)
  ultimately show ?thesis using h1 h2 by blast
qed


subsection \<open>The steps of the loop\<close>

lemma idle_facts:
  assumes "qinv s" and "suspended s = []"
  shows "\<not> processing (queue s)" and "\<forall>j \<in> set (jobs (queue s)). terminal (status j)"
proof -
  from assms(1) obtain ts ps where sh: "qshape s ts ps" unfolding qinv_def by blast
  from sh assms(2) show "\<not> processing (queue s)" by (cases rule: qshapeE) simp_all
  from sh have T: "\<forall>x \<in> set ts. terminal (status x)" unfolding qshape_def by blast
  from sh assms(2) T show "\<forall>j \<in> set (jobs (queue s)). terminal (status j)"
    by (cases rule: qshapeE) simp_all
qed

lemma body_facts:
  assumes "qinv s" and "suspended s = [InBody i]"
  obtains ts j ps where "jobs (queue s) = ts @ j # ps" "jid j = i" "status j = Processing"
    "\<forall>x \<in> set ts. terminal (status x)" "\<forall>x \<in> set ps. status x = Pending" "processing (queue s)"
proof -
  from assms(1) obtain ts ps where sh: "qshape s ts ps" unfolding qinv_def by blast
  then have T: "\<forall>x \<in> set ts. terminal (status x)" and P: "\<forall>x \<in> set ps. status x = Pending"
    unfolding qshape_def by blast+
  from sh show ?thesis
  proof (cases rule: qshapeE)
    case idle
    with assms(2) show ?thesis by simp
  next
    case (body j)
    with assms(2) have "jid j = i" by simp
    with body T P that show ?thesis by blast
  next
    case after
    with assms(2) show ?thesis by simp
  qed
qed

lemma after_facts:
  assumes "qinv s" and "suspended s = [AfterBody]"
  obtains ts ps where "jobs (queue s) = ts @ ps"
    "\<forall>x \<in> set ts. terminal (status x)" "\<forall>x \<in> set ps. status x = Pending" "processing (queue s)"
proof -
  from assms(1) obtain ts ps where sh: "qshape s ts ps" unfolding qinv_def by blast
  then have T: "\<forall>x \<in> set ts. terminal (status x)" and P: "\<forall>x \<in> set ps. status x = Pending"
    unfolding qshape_def by blast+
  from sh show ?thesis
  proof (cases rule: qshapeE)
    case idle
    with assms(2) show ?thesis by simp
  next
    case (body j)
    with assms(2) show ?thesis by simp
  next
    case after
    with T P that show ?thesis by blast
  qed
qed

lemma suspended_cases:
  assumes "qinv s"
  shows "suspended s = [] \<or> (\<exists>i. suspended s = [InBody i]) \<or> suspended s = [AfterBody]"
proof -
  from assms obtain ts ps where sh: "qshape s ts ps" unfolding qinv_def by blast
  then show ?thesis by (cases rule: qshapeE) simp_all
qed

lemma pendingCount_Nil [simp]: "pendingCount [] = 0"
  by (simp add: pendingCount_def)

lemma pendingCount_append: "pendingCount (xs @ ys) = pendingCount xs + pendingCount ys"
  by (simp add: pendingCount_def)

lemma pendingCount_Cons:
  "pendingCount (x # xs) = (if status x = Pending then Suc (pendingCount xs) else pendingCount xs)"
  by (simp add: pendingCount_def)

lemma pendingCount_terminal: "\<forall>x \<in> set ts. terminal (status x) \<Longrightarrow> pendingCount ts = 0"
  by (induction ts) (auto simp: pendingCount_def terminal_def)

lemma pendingCount_pending: "\<forall>x \<in> set ps. status x = Pending \<Longrightarrow> pendingCount ps = length ps"
  by (induction ps) (auto simp: pendingCount_def)

lemma getJob_mid:
  "distinct (map jid (ts @ j # ps)) \<Longrightarrow> getJob (ts @ j # ps) (jid j) = Some j"
  by (induction ts) (auto simp: getJob_def)

lemma map_set_mid:
  "distinct (map jid (ts @ j # ps)) \<Longrightarrow> map_set (ts @ j # ps) (jid j) v = ts @ v # ps"
  by (induction ts) auto

lemma touch_Some: "touch st (Some t) j = j\<lparr>status := st, processedAt := Some t\<rparr>"
  by (simp add: touch_def)

lemma touch_None: "touch st None j = j\<lparr>status := st\<rparr>"
  by (simp add: touch_def)

text \<open>An invocation inside a job body: the settlement is enabled, and it rewrites the job
  being processed, and nothing else, to the outcome.\<close>

lemma settle_effect:
  assumes inv: "qinv s" and b: "suspended s = [InBody i]"
  shows "\<exists>j. getJob (jobs (queue s)) i = Some j \<and> status j = Processing
     \<and> (\<forall>r t. fire (Settle 0 r t) s =
           Some (s\<lparr>queue := (queue s)\<lparr>jobs := map_set (jobs (queue s)) i
                      (j\<lparr>status := (if r then Completed else Failed), processedAt := Some t\<rparr>)\<rparr>,
                   suspended := [AfterBody]\<rparr>)
         \<and> pendingCount (map_set (jobs (queue s)) i
              (j\<lparr>status := (if r then Completed else Failed), processedAt := Some t\<rparr>))
           = pendingCount (jobs (queue s)))"
proof -
  from inv have dist: "distinct (map jid (jobs (queue s)))" by (simp add: qinv_def)
  from inv b obtain ts j ps where js: "jobs (queue s) = ts @ j # ps" and ji: "jid j = i"
    and sj: "status j = Processing" by (rule body_facts)
  from dist have d: "distinct (map jid (ts @ j # ps))" by (simp add: js)
  have g: "getJob (jobs (queue s)) i = Some j"
    using getJob_mid [OF d] by (simp add: js ji)
  have "fire (Settle 0 r t) s =
           Some (s\<lparr>queue := (queue s)\<lparr>jobs := map_set (jobs (queue s)) i
                      (j\<lparr>status := (if r then Completed else Failed), processedAt := Some t\<rparr>)\<rparr>,
                   suspended := [AfterBody]\<rparr>)
         \<and> pendingCount (map_set (jobs (queue s)) i
              (j\<lparr>status := (if r then Completed else Failed), processedAt := Some t\<rparr>))
           = pendingCount (jobs (queue s))" for r t
  proof -
    let ?v = "j\<lparr>status := (if r then Completed else Failed), processedAt := Some t\<rparr>"
    have ms: "map_set (jobs (queue s)) i ?v = ts @ ?v # ps"
      using map_set_mid [OF d, of ?v] by (simp add: js ji)
    have fin: "finishJob i r t (jobs (queue s)) = ts @ ?v # ps"
      using update_split [OF d, of Completed "Some t"] update_split [OF d, of Failed "Some t"]
      by (simp add: finishJob_def js ji touch_Some)
    have pc: "pendingCount (ts @ ?v # ps) = pendingCount (ts @ j # ps)"
      using sj by (simp add: pendingCount_append pendingCount_Cons)
    from b fin ms pc show ?thesis by (simp add: js)
  qed
  with g sj show ?thesis by blast
qed

text \<open>An invocation at the loop head: the resumption is enabled; with no job pending the
  loop ends and resets the flag, otherwise the first pending job, and nothing else, is set
  to processing, which leaves one job less pending.\<close>

lemma resume_effect:
  assumes inv: "qinv s" and a: "suspended s = [AfterBody]"
  shows "(case findPending (jobs (queue s)) of
            None \<Rightarrow>
              fire (Resume 0) s = Some (s\<lparr>queue := (queue s)\<lparr>processing := False\<rparr>, suspended := []\<rparr>)
              \<and> (\<forall>j \<in> set (jobs (queue s)). terminal (status j))
          | Some p \<Rightarrow>
              fire (Resume 0) s =
                Some (s\<lparr>queue := (queue s)\<lparr>jobs := map_set (jobs (queue s)) (jid p)
                            (p\<lparr>status := Processing\<rparr>)\<rparr>,
                        suspended := [InBody (jid p)]\<rparr>)
              \<and> getJob (jobs (queue s)) (jid p) = Some p
              \<and> Suc (pendingCount (map_set (jobs (queue s)) (jid p) (p\<lparr>status := Processing\<rparr>)))
                 = pendingCount (jobs (queue s)))"
proof -
  from inv have dist: "distinct (map jid (jobs (queue s)))" by (simp add: qinv_def)
  from inv a obtain ts ps where js: "jobs (queue s) = ts @ ps"
    and T: "\<forall>x \<in> set ts. terminal (status x)" and P: "\<forall>x \<in> set ps. status x = Pending"
    by (rule after_facts)
  show ?thesis
  proof (cases ps)
    case Nil
    have fp: "findPending (jobs (queue s)) = None"
      using T findPending_terminal [of ts "[]"] by (simp add: js Nil findPending_Nil)
    have "fire (Resume 0) s = Some (s\<lparr>queue := (queue s)\<lparr>processing := False\<rparr>, suspended := []\<rparr>)"
      using a fp by (simp add: pass_def drop_nth_def)
    with fp T show ?thesis by (simp add: js Nil)
  next
    case (Cons p ps')
    with P have pp: "status p = Pending" by simp
    have fp: "findPending (jobs (queue s)) = Some p"
      using T pp by (simp add: js Cons findPending_terminal findPending_Cons_pending)
    from dist have d: "distinct (map jid (ts @ p # ps'))" by (simp add: js Cons)
    let ?v = "p\<lparr>status := Processing\<rparr>"
    have ms: "map_set (jobs (queue s)) (jid p) ?v = ts @ ?v # ps'"
      using map_set_mid [OF d, of ?v] by (simp add: js Cons)
    have st: "startJob p (jobs (queue s)) = ts @ ?v # ps'"
      using update_split [OF d, of Processing None] by (simp add: startJob_def js Cons touch_None)
    have g: "getJob (jobs (queue s)) (jid p) = Some p"
      using getJob_mid [OF d] by (simp add: js Cons)
    have pc: "Suc (pendingCount (ts @ ?v # ps')) = pendingCount (ts @ p # ps')"
      using pp by (simp add: pendingCount_append pendingCount_Cons)
    have "fire (Resume 0) s =
                Some (s\<lparr>queue := (queue s)\<lparr>jobs := map_set (jobs (queue s)) (jid p) ?v\<rparr>,
                        suspended := [InBody (jid p)]\<rparr>)"
      using a fp st ms by (simp add: pass_def)
    with fp g pc ms show ?thesis by (simp add: js Cons)
  qed
qed

lemma submit_load:
  assumes inv: "qinv s" and fresh: "i \<notin> set (map jid (jobs (queue s)))"
  shows "load (addJob i d now s) = load s + 2"
proof -
  let ?n = "newJob i d now"
  have n: "jid ?n = i" "status ?n = Pending" by (simp_all add: newJob_def)
  have set: "map_set (jobs (queue s)) i ?n = jobs (queue s) @ [?n]"
    using fresh by (rule map_set_fresh)
  from suspended_cases [OF inv] show ?thesis
  proof (elim disjE exE)
    assume idle: "suspended s = []"
    from idle_facts [OF inv idle] have np: "\<not> processing (queue s)"
      and T: "\<forall>j \<in> set (jobs (queue s)). terminal (status j)" by simp_all
    have fp: "findPending (jobs (queue s) @ [?n]) = Some ?n"
      using T n by (simp add: findPending_terminal findPending_Cons_pending)
    from inv fresh n have d2: "distinct (map jid (jobs (queue s) @ ?n # []))"
      by (simp add: qinv_def)
    have st: "startJob ?n (jobs (queue s) @ [?n]) = jobs (queue s) @ [touch Processing None ?n]"
      using update_split [OF d2, of Processing None] n by (simp add: startJob_def)
    have res: "addJob i d now s =
        s\<lparr>queue := \<lparr>jobs = jobs (queue s) @ [touch Processing None ?n], processing = True\<rparr>,
          suspended := [InBody i]\<rparr>"
      using idle np set fp st n by (simp add: addJob_def callProcessQueue_def pass_def)
    show ?thesis
      unfolding res load_def using idle pendingCount_terminal [OF T]
      by (simp add: pendingCount_append pendingCount_Cons pendingCount_Nil)
  next
    fix k assume body: "suspended s = [InBody k]"
    from body_facts [OF inv body] have pr: "processing (queue s)" by blast
    have res: "addJob i d now s = s\<lparr>queue := (queue s)\<lparr>jobs := jobs (queue s) @ [?n]\<rparr>\<rparr>"
      using pr set by (simp add: addJob_def callProcessQueue_def)
    show ?thesis unfolding res load_def using n
      by (simp add: pendingCount_append pendingCount_Cons)
  next
    assume after: "suspended s = [AfterBody]"
    from after_facts [OF inv after] have pr: "processing (queue s)" by blast
    have res: "addJob i d now s = s\<lparr>queue := (queue s)\<lparr>jobs := jobs (queue s) @ [?n]\<rparr>\<rparr>"
      using pr set by (simp add: addJob_def callProcessQueue_def)
    show ?thesis unfolding res load_def using n
      by (simp add: pendingCount_append pendingCount_Cons)
  qed
qed

lemma settle_load:
  assumes inv: "qinv s" and f: "fire (Settle k r t) s = Some s'"
  shows "Suc (load s') = load s"
proof -
  from f obtain i where b: "suspended s ! k = InBody i" and k: "k < length (suspended s)"
    by (auto split: if_splits invocation.splits)
  from suspended_cases [OF inv] b k have k0: "k = 0" and sb: "suspended s = [InBody i]"
    by auto
  from settle_effect [OF inv sb] obtain j where
    e: "fire (Settle 0 r t) s =
           Some (s\<lparr>queue := (queue s)\<lparr>jobs := map_set (jobs (queue s)) i
                      (j\<lparr>status := (if r then Completed else Failed), processedAt := Some t\<rparr>)\<rparr>,
                   suspended := [AfterBody]\<rparr>)"
    and pc: "pendingCount (map_set (jobs (queue s)) i
              (j\<lparr>status := (if r then Completed else Failed), processedAt := Some t\<rparr>))
           = pendingCount (jobs (queue s))"
    by blast
  from e f k0 have "s' = s\<lparr>queue := (queue s)\<lparr>jobs := map_set (jobs (queue s)) i
                      (j\<lparr>status := (if r then Completed else Failed), processedAt := Some t\<rparr>)\<rparr>,
                   suspended := [AfterBody]\<rparr>" by simp
  then show ?thesis using pc sb by (simp add: load_def)
qed

lemma resume_load:
  assumes inv: "qinv s" and f: "fire (Resume k) s = Some s'"
  shows "Suc (load s') = load s"
proof -
  from f have b: "suspended s ! k = AfterBody" and k: "k < length (suspended s)"
    by (auto split: if_splits invocation.splits)
  from suspended_cases [OF inv] b k have k0: "k = 0" and sa: "suspended s = [AfterBody]"
    by auto
  show ?thesis
  proof (cases "findPending (jobs (queue s))")
    case None
    with resume_effect [OF inv sa] f k0 have "s' = s\<lparr>queue := (queue s)\<lparr>processing := False\<rparr>, suspended := []\<rparr>"
      by simp
    with None sa show ?thesis by (simp add: load_def findPending_None)
  next
    case (Some p)
    with resume_effect [OF inv sa] have
      e: "fire (Resume 0) s =
                Some (s\<lparr>queue := (queue s)\<lparr>jobs := map_set (jobs (queue s)) (jid p)
                            (p\<lparr>status := Processing\<rparr>)\<rparr>,
                        suspended := [InBody (jid p)]\<rparr>)"
      and pc: "Suc (pendingCount (map_set (jobs (queue s)) (jid p) (p\<lparr>status := Processing\<rparr>)))
                 = pendingCount (jobs (queue s))"
      by simp_all
    from e f k0 have "s' = s\<lparr>queue := (queue s)\<lparr>jobs := map_set (jobs (queue s)) (jid p)
                            (p\<lparr>status := Processing\<rparr>)\<rparr>,
                        suspended := [InBody (jid p)]\<rparr>" by simp
    then show ?thesis using pc [symmetric] sa by (simp add: load_def)
  qed
qed

lemma step_load:
  assumes inv: "qinv s" and f: "fire e s = Some s'"
    and fresh: "set (submitted [e]) \<inter> set (map jid (jobs (queue s))) = {}"
  shows "load s' + loopSteps [e] = load s + 2 * length (submitted [e])"
proof (cases e)
  case (Submit i d now)
  with fresh have "i \<notin> set (map jid (jobs (queue s)))" by simp
  from submit_load [OF inv this, of d now] f Submit show ?thesis by simp
next
  case (Settle k r t)
  with settle_load [OF inv] f show ?thesis by simp
next
  case (Resume k)
  with resume_load [OF inv] f show ?thesis by simp
qed

lemma loopSteps_Cons: "loopSteps (e # es) = loopSteps [e] + loopSteps es"
  by (cases e) simp_all

lemma run_load:
  "qinv s \<Longrightarrow> run es s = Some s' \<Longrightarrow> distinct (submitted es) \<Longrightarrow>
   set (submitted es) \<inter> set (map jid (jobs (queue s))) = {} \<Longrightarrow>
   load s' + loopSteps es = load s + 2 * length (submitted es)"
proof (induction es arbitrary: s)
  case Nil
  then show ?case by simp
next
  case (Cons e es)
  from Cons.prems(2) obtain s1 where f: "fire e s = Some s1" and r: "run es s1 = Some s'"
    by (auto split: option.splits)
  have sub: "submitted (e # es) = submitted [e] @ submitted es"
    using submitted_append [of "[e]" es] by simp
  from Cons.prems(4) sub have fr: "set (submitted [e]) \<inter> set (map jid (jobs (queue s))) = {}"
    by auto
  from step_inv [OF Cons.prems(1) f fr]
  have q1: "qinv s1" and ids1: "map jid (jobs (queue s1)) = map jid (jobs (queue s)) @ submitted [e]"
    by simp_all
  from Cons.prems(3) sub have d: "distinct (submitted es)" by simp
  from Cons.prems(3,4) sub ids1
  have fr1: "set (submitted es) \<inter> set (map jid (jobs (queue s1))) = {}" by auto
  from Cons.IH [OF q1 r d fr1] step_load [OF Cons.prems(1) f fr] sub
  show ?case by (simp add: loopSteps_Cons [of e es])
qed

text \<open>
  Claim C10, as stated, fails: the number of pending jobs does not fall with every
  iteration. The loop is at its head with one job pending; it starts that job, two jobs are
  submitted while the body runs, the body ends; the loop is at its head again, one
  iteration later, with two jobs pending.
\<close>

theorem pending_grows_across_iteration:
  "run ev_head fresh_queue = Some st_head
   \<and> suspended st_head = [AfterBody] \<and> pendingCount (jobs (queue st_head)) = 1
   \<and> run [Resume 0, Submit ''j3'' d0 4, Submit ''j4'' d0 5, Settle 0 True 6] st_head = Some st_head2
   \<and> suspended st_head2 = [AfterBody] \<and> pendingCount (jobs (queue st_head2)) = 2"
  by code_simp

text \<open>
  Claim C10, amended. In every state that a run from the empty queue reaches (job ids
  pairwise distinct), the steps the loop has taken and the load still before it add up to
  two for each job submitted: a submission adds two to the load, a step of the loop takes
  one off, so the loop takes at most two steps for a job and ends when submissions do. The
  jobs are all kept, in submission order. The loop is never stuck. Inside a job body the
  settlement is enabled and moves the processing job, and nothing else, to completed or
  failed as the body ended, leaving the number of pending jobs as it is. At its head the
  resumption is enabled: with no job pending the loop exits, resetting the flag, all jobs
  being completed or failed; otherwise it moves the first pending job, and nothing else, to
  processing, leaving one job less pending. With no invocation left the load is zero.
  Hence, once submissions stop, any further run takes one off the load with each step,
  keeps all jobs, and after as many steps as the load counts has left the loop, the flag
  reset and every job completed or failed. Only the jobs submitted during an iteration can
  make the pending jobs more.
\<close>

lemma loopSteps_only: "submitted es = [] \<Longrightarrow> loopSteps es = length es"
  by (induction es rule: submitted.induct) simp_all

theorem loop_steps_accounted:
  assumes "run es fresh_queue = Some s" and "distinct (submitted es)"
  shows "load s + loopSteps es = 2 * length (submitted es)
     \<and> map jid (jobs (queue s)) = submitted es
     \<and> (suspended s = [] \<or> (\<exists>i. suspended s = [InBody i]) \<or> suspended s = [AfterBody])
     \<and> (suspended s = [] \<longrightarrow>
          load s = 0 \<and> \<not> processing (queue s) \<and> (\<forall>j \<in> set (jobs (queue s)). terminal (status j)))
     \<and> (\<forall>i. suspended s = [InBody i] \<longrightarrow>
          (\<exists>j. getJob (jobs (queue s)) i = Some j \<and> status j = Processing
             \<and> (\<forall>r t. fire (Settle 0 r t) s =
                   Some (s\<lparr>queue := (queue s)\<lparr>jobs := map_set (jobs (queue s)) i
                              (j\<lparr>status := (if r then Completed else Failed),
                                 processedAt := Some t\<rparr>)\<rparr>,
                           suspended := [AfterBody]\<rparr>)
                 \<and> pendingCount (map_set (jobs (queue s)) i
                      (j\<lparr>status := (if r then Completed else Failed), processedAt := Some t\<rparr>))
                   = pendingCount (jobs (queue s)))))
     \<and> (suspended s = [AfterBody] \<longrightarrow>
          (case findPending (jobs (queue s)) of
             None \<Rightarrow>
               fire (Resume 0) s
                 = Some (s\<lparr>queue := (queue s)\<lparr>processing := False\<rparr>, suspended := []\<rparr>)
               \<and> (\<forall>j \<in> set (jobs (queue s)). terminal (status j))
           | Some p \<Rightarrow>
               fire (Resume 0) s =
                 Some (s\<lparr>queue := (queue s)\<lparr>jobs := map_set (jobs (queue s)) (jid p)
                             (p\<lparr>status := Processing\<rparr>)\<rparr>,
                         suspended := [InBody (jid p)]\<rparr>)
               \<and> getJob (jobs (queue s)) (jid p) = Some p
               \<and> Suc (pendingCount (map_set (jobs (queue s)) (jid p) (p\<lparr>status := Processing\<rparr>)))
                  = pendingCount (jobs (queue s))))
     \<and> (\<forall>es' s'. submitted es' = [] \<longrightarrow> run es' s = Some s' \<longrightarrow>
          load s' + length es' = load s
          \<and> map jid (jobs (queue s')) = map jid (jobs (queue s))
          \<and> (length es' = load s \<longrightarrow>
                suspended s' = [] \<and> \<not> processing (queue s')
                \<and> (\<forall>j \<in> set (jobs (queue s')). terminal (status j))))"
proof -
  have e: "set (submitted es) \<inter> set (map jid (jobs (queue fresh_queue))) = {}"
    by (simp add: fresh_queue_def)
  from run_inv [OF qinv_fresh assms e]
  have q: "qinv s" and ids: "map jid (jobs (queue s)) = submitted es"
    by (simp_all add: fresh_queue_def)
  from run_load [OF qinv_fresh assms e]
  have l: "load s + loopSteps es = 2 * length (submitted es)"
    by (simp add: load_def fresh_queue_def pendingCount_def)
  have idle: "load s = 0 \<and> \<not> processing (queue s) \<and> (\<forall>j \<in> set (jobs (queue s)). terminal (status j))"
    if "suspended s = []"
    using idle_facts [OF q that] that
    by (simp add: load_def pendingCount_terminal)
  have fin: "load s' + length es' = load s
          \<and> map jid (jobs (queue s')) = map jid (jobs (queue s))
          \<and> (length es' = load s \<longrightarrow>
                suspended s' = [] \<and> \<not> processing (queue s')
                \<and> (\<forall>j \<in> set (jobs (queue s')). terminal (status j)))"
    if ns: "submitted es' = []" and r: "run es' s = Some s'" for es' s'
  proof -
    from ns have d: "distinct (submitted es')"
      and dj: "set (submitted es') \<inter> set (map jid (jobs (queue s))) = {}" by simp_all
    from run_inv [OF q r d dj] ns have q': "qinv s'"
      and ids': "map jid (jobs (queue s')) = map jid (jobs (queue s))" by simp_all
    from run_load [OF q r d dj] ns have l': "load s' + length es' = load s"
      by (simp add: loopSteps_only)
    have "suspended s' = [] \<and> \<not> processing (queue s')
                \<and> (\<forall>j \<in> set (jobs (queue s')). terminal (status j))"
      if "length es' = load s"
    proof -
      from that l' have "load s' = 0" by simp
      then have "sum_list (map weight (suspended s')) = 0" by (simp add: load_def)
      then have s0: "suspended s' = []"
        by (cases "suspended s'"; cases "hd (suspended s')") auto
      with idle_facts [OF q'] show ?thesis by simp
    qed
    with l' ids' show ?thesis by blast
  qed
  from l ids suspended_cases [OF q] idle settle_effect [OF q] resume_effect [OF q] fin
  show ?thesis by blast
qed

theorem loop_steps_accounted_witness:
  "run ev_head fresh_queue = Some st_head \<and> distinct (submitted ev_head)
   \<and> load st_head = 3 \<and> loopSteps ev_head = 1
   \<and> suspended st_head = [AfterBody]
   \<and> findPending (jobs (queue st_head)) = Some j2_pending
   \<and> fire (Resume 0) st_head =
        Some (st_head\<lparr>queue := (queue st_head)\<lparr>jobs := map_set (jobs (queue st_head)) ''j2''
                          (j2_pending\<lparr>status := Processing\<rparr>)\<rparr>,
                        suspended := [InBody ''j2'']\<rparr>)"
proof -
  have h1: "run ev_head fresh_queue = Some st_head"
    by code_simp
  have h2: "distinct (submitted ev_head)"
    by (simp add: ev_head_def)
  have h3: "suspended st_head = [AfterBody]"
    by (simp add: st_head_def)
  have h4: "findPending (jobs (queue st_head)) = Some j2_pending"
    by (simp add: st_head_def findPending_def j1_done_def j2_pending_def)
  have h5: "loopSteps ev_head = 1" and h6: "length (submitted ev_head) = 2"
    by (simp_all add: ev_head_def)
  have h7: "jid j2_pending = ''j2''"
    by (simp add: j2_pending_def)
  note acc = loop_steps_accounted [OF h1 h2]
  from acc have "load st_head + loopSteps ev_head = 2 * length (submitted ev_head)" by blast
  with h5 h6 have l: "load st_head = 3" by simp
  from acc h3 have "case findPending (jobs (queue st_head)) of
             None \<Rightarrow>
               fire (Resume 0) st_head
                 = Some (st_head\<lparr>queue := (queue st_head)\<lparr>processing := False\<rparr>, suspended := []\<rparr>)
               \<and> (\<forall>j \<in> set (jobs (queue st_head)). terminal (status j))
           | Some p \<Rightarrow>
               fire (Resume 0) st_head =
                 Some (st_head\<lparr>queue := (queue st_head)\<lparr>jobs := map_set (jobs (queue st_head)) (jid p)
                             (p\<lparr>status := Processing\<rparr>)\<rparr>,
                         suspended := [InBody (jid p)]\<rparr>)
               \<and> getJob (jobs (queue st_head)) (jid p) = Some p
               \<and> Suc (pendingCount (map_set (jobs (queue st_head)) (jid p) (p\<lparr>status := Processing\<rparr>)))
                  = pendingCount (jobs (queue st_head))" by blast
  with h4 h7 have f: "fire (Resume 0) st_head =
        Some (st_head\<lparr>queue := (queue st_head)\<lparr>jobs := map_set (jobs (queue st_head)) ''j2''
                          (j2_pending\<lparr>status := Processing\<rparr>)\<rparr>,
                        suspended := [InBody ''j2'']\<rparr>)" by simp
  from h1 h2 l h5 h3 h4 f show ?thesis by blast
qed

section \<open>Properties of the archive construction\<close>

lemma addFiles_eq:
  "addFiles files disk uid ids ar =
   ar @ map (\<lambda>f. (f_path f, f_name f))
          (filter (included disk uid) (List.map_filter (getFileById files) ids))"
  by (induction ids arbitrary: ar)
     (simp_all add: map_filter_simps included_def split: option.splits)

lemma getZipJobById_map:
  "(\<And>z. z_id (g z) = z_id z) \<Longrightarrow>
   getZipJobById (map (\<lambda>z. if z_id z = i then g z else z) tbl) i
     = map_option g (getZipJobById tbl i)"
  by (induction tbl) (simp_all add: getZipJobById_def)

lemma downloadUrlOf_truthy: "truthy (Some (downloadUrlOf jobId))"
  by (simp add: truthy_def downloadUrlOf_def)

text \<open>
  Claim C5. Whatever ids are requested, when the build ends with the output closed the
  promise resolves with the download URL, the job row is marked completed, and the
  archive holds, in the order of the request and under the names of the files, one entry
  for each requested id whose row exists, belongs to the job's user and has its bytes on
  disk, and nothing else. An id that fails one of the three checks adds no entry and
  raises no error.
\<close>

theorem archive_holds_passing_files:
  "container (processZipFiles files disk Closed now ids uid jobId tbl) =
     Some (map (\<lambda>f. (f_path f, f_name f))
            (filter (included disk uid) (List.map_filter (getFileById files) ids)))
   \<and> settled (processZipFiles files disk Closed now ids uid jobId tbl) = Inr (downloadUrlOf jobId)
   \<and> getZipJobById (zip_jobs (processZipFiles files disk Closed now ids uid jobId tbl)) jobId
      = map_option (\<lambda>z. z\<lparr>z_status := Completed, z_download_url := Some (downloadUrlOf jobId),
                            z_completed_at := Some now\<rparr>) (getZipJobById tbl jobId)"
proof -
  have "getZipJobById (updateZipJobStatus jobId Completed (Some (downloadUrlOf jobId)) now tbl) jobId
      = map_option (\<lambda>z. z\<lparr>z_status := Completed, z_download_url := Some (downloadUrlOf jobId),
                            z_completed_at := Some now\<rparr>) (getZipJobById tbl jobId)"
    unfolding updateZipJobStatus_def if_P [OF downloadUrlOf_truthy]
    by (rule getZipJobById_map) simp
  then show ?thesis
    by (simp add: processZipFiles_def addFiles_eq)
qed

theorem archive_holds_passing_files_witness:
  "container (processZipFiles [file_a, file_b, file_c, file_e]
       {''uploads/a'', ''uploads/b'', ''uploads/c''} Closed 9
       [''a'', ''b'', ''x'', ''c'', ''e''] ''u'' ''j'' [job_j])
     = Some [(''uploads/a'', ''a.pdf''), (''uploads/c'', ''c.pdf'')]
   \<and> settled (processZipFiles [file_a, file_b, file_c, file_e]
       {''uploads/a'', ''uploads/b'', ''uploads/c''} Closed 9
       [''a'', ''b'', ''x'', ''c'', ''e''] ''u'' ''j'' [job_j]) = Inr ''/api/zip/j''"
  using archive_holds_passing_files [of "[file_a, file_b, file_c, file_e]"
      "{''uploads/a'', ''uploads/b'', ''uploads/c''}" 9 "[''a'', ''b'', ''x'', ''c'', ''e'']"
      "''u''" "''j''" "[job_j]"]
  by (simp add: map_filter_simps getFileById_def included_def downloadUrlOf_def
        file_a_def file_b_def file_c_def file_e_def)

text \<open>
  Claim C7, as stated, fails: a job created pending and without download URL, whose build
  ends with an archiver error, is left failed and without URL, but its \<^verbatim>\<open>completed_at\<close>
  is not set.
\<close>

theorem failed_job_completed_at_unset:
  "createZipJob ''j'' ''u'' ''[a,b,c]'' Pending None 7 [] = Inr [job_j]
   \<and> getZipJobById
        (zip_jobs (processZipFiles [file_a] {''uploads/a''} ArchiveError 9 [''a''] ''u'' ''j'' [job_j]))
        ''j''
      = Some (job_j\<lparr>z_status := Failed\<rparr>)
   \<and> z_completed_at (job_j\<lparr>z_status := Failed\<rparr>) = None"
  by (simp add: createZipJob_def job_j_def processZipFiles_def updateZipJobStatus_def truthy_def
        getZipJobById_def)

text \<open>
  Claim C7, amended. When the build ends with an archiver error or an exception, the job
  row is marked failed and nothing else of it is written: its download URL and its
  \<^verbatim>\<open>completed_at\<close> are what they were (both unset for a job that never completed); the
  promise is rejected and no complete container exists.
\<close>

theorem failed_build_record:
  assumes "getZipJobById tbl jobId = Some z" and "b = ArchiveError \<or> b = Thrown"
  shows "\<exists>z'. getZipJobById (zip_jobs (processZipFiles files disk b now ids uid jobId tbl)) jobId
           = Some z'
      \<and> z_status z' = Failed
      \<and> z_download_url z' = z_download_url z
      \<and> z_completed_at z' = z_completed_at z
      \<and> settled (processZipFiles files disk b now ids uid jobId tbl) = Inl ()
      \<and> container (processZipFiles files disk b now ids uid jobId tbl) = None"
  using assms getZipJobById_map [of "\<lambda>z. z\<lparr>z_status := Failed\<rparr>" jobId tbl]
  by (auto simp: processZipFiles_def updateZipJobStatus_def truthy_def)

theorem failed_build_record_witness:
  "getZipJobById [job_j] ''j'' = Some job_j
   \<and> (\<exists>z'. getZipJobById
         (zip_jobs (processZipFiles [file_a] {''uploads/a''} Thrown 9 [''a''] ''u'' ''j'' [job_j]))
         ''j'' = Some z'
      \<and> z_status z' = Failed \<and> z_download_url z' = None \<and> z_completed_at z' = None)"
proof -
  have h: "getZipJobById [job_j] ''j'' = Some job_j"
    by (simp add: getZipJobById_def job_j_def)
  from failed_build_record [OF h, of Thrown "[file_a]" "{''uploads/a''}" 9 "[''a'']" "''u''"]
  show ?thesis using h by (auto simp: job_j_def)
qed

section \<open>Properties of the engine\<close>




lemma z_id_update [simp]: "map z_id (updateZipJobStatus i st url now tbl) = map z_id tbl"
  by (induction tbl) (simp_all add: updateZipJobStatus_def)



















section \<open>Properties of the hierarchy store\<close>

lemma lookupFolder_Some:
  "lookupFolder tbl i = Some g \<Longrightarrow> g \<in> set tbl \<and> fo_id g = i"
  unfolding lookupFolder_def by (induction tbl) (auto split: if_splits)

lemma lookupFolder_distinct:
  "distinct (map fo_id tbl) \<Longrightarrow> g \<in> set tbl \<Longrightarrow> lookupFolder tbl (fo_id g) = Some g"
  unfolding lookupFolder_def by (induction tbl) (auto simp: image_iff)

lemma lookupFolder_append_Some:
  "lookupFolder tbl i = Some g \<Longrightarrow> lookupFolder (tbl @ ext) i = Some g"
  unfolding lookupFolder_def by (induction tbl) (auto split: if_splits)

lemma lookupFolder_last:
  "fo_id r \<notin> set (map fo_id tbl) \<Longrightarrow> lookupFolder (tbl @ [r]) (fo_id r) = Some r"
  unfolding lookupFolder_def by (induction tbl) auto

lemma path_ok_append: "path_ok tbl f \<Longrightarrow> path_ok (tbl @ ext) f"
  unfolding path_ok_def
  by (auto split: option.splits simp: lookupFolder_append_Some)

lemma single_Inr: "single xs = Inr r \<Longrightarrow> xs = [r]"
  by (cases xs rule: single.cases) simp_all

lemma paths_ok_append:
  assumes "paths_ok tbl" and "fo_id row \<notin> set (map fo_id tbl)" and "path_ok tbl row"
  shows "paths_ok (tbl @ [row])"
  using assms unfolding paths_ok_def list_all_iff
  by (auto intro: path_ok_append)

lemma insertFolder_Inr:
  "insertFolder row st = Inr (f, st') \<Longrightarrow>
   f = row \<and> st' = st\<lparr>fm_folders := fm_folders st @ [row]\<rparr>
   \<and> fo_id row \<notin> set (map fo_id (fm_folders st))
   \<and> (\<forall>p. fo_parent_id row = Some p \<longrightarrow> lookupFolder (fm_folders st) p \<noteq> None)"
  unfolding insertFolder_def by (auto split: if_splits option.splits)

lemma parentPath_root:
  "\<not> truthy parentId \<Longrightarrow> parentPath session parentId tbl = Inr path \<Longrightarrow> path = ''/''"
  by (simp add: parentPath_def)

lemma parentPath_parent:
  assumes "truthy parentId" and "parentPath session parentId tbl = Inr path"
    and "distinct (map fo_id tbl)"
  shows "\<exists>p g. parentId = Some p \<and> lookupFolder tbl p = Some g \<and> Some (fo_user_id g) = session
      \<and> path = fo_path g @ fo_name g @ ''/''"
proof -
  from assms(1,2) obtain g where
    s: "single (filter (\<lambda>f. Some (fo_id f) = parentId) (visible session tbl)) = Inr g"
    and path: "path = fo_path g @ fo_name g @ ''/''"
    by (auto simp: parentPath_def split: sum.splits)
  from single_Inr [OF s] have "g \<in> set (filter (\<lambda>f. Some (fo_id f) = parentId) (visible session tbl))"
    by simp
  then have g: "g \<in> set tbl" "Some (fo_id g) = parentId" "Some (fo_user_id g) = session"
    by (auto simp: visible_def split: option.splits)
  from lookupFolder_distinct [OF assms(3) g(1)] g(2,3) path show ?thesis by auto
qed

lemma createFolder_Inr:
  assumes c: "createFolder session newId now name parentId st = Inr (f, st')"
    and ok: "paths_ok (fm_folders st)"
  shows "paths_ok (fm_folders st') \<and> f \<in> set (fm_folders st') \<and> fo_name f = name
     \<and> Some (fo_user_id f) = session \<and> fo_id f = newId
     \<and> (if truthy parentId
         then \<exists>p g. parentId = Some p \<and> fo_parent_id f = Some p
                \<and> lookupFolder (fm_folders st) p = Some g \<and> Some (fo_user_id g) = session
                \<and> fo_path f = fo_path g @ fo_name g @ ''/''
         else fo_parent_id f = None \<and> fo_path f = ''/'')"
proof -
  from c obtain uid path where u: "session = Some uid"
    and pp: "parentPath session parentId (fm_folders st) = Inr path"
    and ins: "insertFolder \<lparr>fo_id = newId, fo_name = name,
                 fo_parent_id = (if truthy parentId then parentId else None),
                 fo_user_id = uid, fo_path = path, fo_created_at = now\<rparr> st = Inr (f, st')"
    by (auto simp: createFolder_def split: option.splits sum.splits)
  let ?row = "\<lparr>fo_id = newId, fo_name = name,
                 fo_parent_id = (if truthy parentId then parentId else None),
                 fo_user_id = uid, fo_path = path, fo_created_at = now\<rparr>"
  from insertFolder_Inr [OF ins] have f: "f = ?row"
    and st': "fm_folders st' = fm_folders st @ [?row]"
    and fresh: "fo_id ?row \<notin> set (map fo_id (fm_folders st))" by simp_all
  from ok have d: "distinct (map fo_id (fm_folders st))" by (simp add: paths_ok_def)
  show ?thesis
  proof (cases "truthy parentId")
    case True
    from parentPath_parent [OF True pp d] obtain p g where
      pg: "parentId = Some p" "lookupFolder (fm_folders st) p = Some g"
        "Some (fo_user_id g) = session" "path = fo_path g @ fo_name g @ ''/''" by blast
    have "path_ok (fm_folders st) ?row"
      using True pg by (simp add: path_ok_def)
    from paths_ok_append [OF ok fresh this] have "paths_ok (fm_folders st')" by (simp add: st')
    with True pg f st' u show ?thesis by auto
  next
    case False
    from parentPath_root [OF False pp] have path: "path = ''/''" .
    have "path_ok (fm_folders st) ?row"
      using False path by (simp add: path_ok_def)
    from paths_ok_append [OF ok fresh this] have "paths_ok (fm_folders st')" by (simp add: st')
    with False path f st' u show ?thesis by auto
  qed
qed

lemma signUp_ok:
  assumes c: "create_user_root_folder uid newId now st = Inr (f, st')"
    and ok: "paths_ok (fm_folders st)"
  shows "paths_ok (fm_folders st')"
proof -
  let ?row = "\<lparr>fo_id = newId, fo_name = ''Root'', fo_parent_id = None, fo_user_id = uid,
                   fo_path = ''/'', fo_created_at = now\<rparr>"
  from insertFolder_Inr [OF c [unfolded create_user_root_folder_def]]
  have st': "fm_folders st' = fm_folders st @ [?row]"
    and fresh: "fo_id ?row \<notin> set (map fo_id (fm_folders st))" by simp_all
  have "path_ok (fm_folders st) ?row" by (simp add: path_ok_def)
  from paths_ok_append [OF ok fresh this] show ?thesis by (simp add: st')
qed

lemma cascade_subset: "set (cascade gone tbl) \<subseteq> set tbl"
proof (induction gone tbl rule: cascade.induct)
  case (1 gone tbl)
  show ?case
  proof (cases "filter (refers gone) tbl = []")
    case True
    then show ?thesis by (simp add: cascade.simps)
  next
    case False
    from "1" [OF False] False show ?thesis
      by (subst cascade.simps) auto
  qed
qed

lemma cascade_distinct:
  "distinct (map fo_id tbl) \<Longrightarrow> distinct (map fo_id (cascade gone tbl))"
proof (induction gone tbl rule: cascade.induct)
  case (1 gone tbl)
  show ?case
  proof (cases "filter (refers gone) tbl = []")
    case True
    with "1.prems" show ?thesis by (simp add: cascade.simps)
  next
    case False
    from "1.prems" have "distinct (map fo_id (filter (\<lambda>f. \<not> refers gone f) tbl))"
      by (rule distinct_map_filter)
    from "1.IH" [OF False this] False show ?thesis
      by (subst cascade.simps) simp
  qed
qed

text \<open>No row that survives the cascade references a deleted id, and the row a survivor
  references survives, too.\<close>

lemma cascade_closed:
  "f \<in> set (cascade gone tbl) \<Longrightarrow> fo_parent_id f = Some p \<Longrightarrow>
   p \<notin> set gone \<and> (\<forall>g \<in> set tbl. fo_id g = p \<longrightarrow> g \<in> set (cascade gone tbl))"
proof (induction gone tbl rule: cascade.induct)
  case (1 gone tbl)
  show ?case
  proof (cases "filter (refers gone) tbl = []")
    case True
    then have res: "cascade gone tbl = tbl" by (simp add: cascade.simps)
    from True "1.prems" res have "\<not> refers gone f" by (auto simp: filter_empty_conv)
    with "1.prems"(2) res show ?thesis by (simp add: refers_def)
  next
    case False
    let ?kids = "filter (refers gone) tbl"
    let ?rest = "filter (\<lambda>f. \<not> refers gone f) tbl"
    from False have res: "cascade gone tbl = cascade (map fo_id ?kids) ?rest"
      by (subst cascade.simps) simp
    from "1.prems"(1) have fin: "f \<in> set (cascade (map fo_id ?kids) ?rest)" by (simp add: res)
    from "1.IH" [OF False fin "1.prems"(2)]
    have a: "p \<notin> set (map fo_id ?kids)"
      and b: "\<forall>g \<in> set ?rest. fo_id g = p \<longrightarrow> g \<in> set (cascade (map fo_id ?kids) ?rest)"
      by simp_all
    from fin cascade_subset have "f \<in> set ?rest" by blast
    then have "\<not> refers gone f" by simp
    with "1.prems"(2) have pg: "p \<notin> set gone" by (simp add: refers_def)
    have "g \<in> set (cascade gone tbl)" if g: "g \<in> set tbl" "fo_id g = p" for g
    proof -
      from a g have "\<not> refers gone g" by auto
      with g have "g \<in> set ?rest" by simp
      with b g show ?thesis by (simp add: res)
    qed
    with pg show ?thesis by blast
  qed
qed

lemma deleteFolder_kept:
  assumes d: "deleteFolder session i st = Inr st'"
  shows "\<exists>hit. fm_folders st' = cascade (map fo_id hit) (filter (\<lambda>f. f \<notin> set hit) (fm_folders st))
     \<and> hit = filter (\<lambda>f. fo_id f = i) (visible session (fm_folders st))
     \<and> bucket st' = bucket st"
  using d by (auto simp: deleteFolder_def Let_def)

lemma deleteFolder_ok:
  assumes d: "deleteFolder session i st = Inr st'" and ok: "paths_ok (fm_folders st)"
  shows "paths_ok (fm_folders st')"
proof -
  from deleteFolder_kept [OF d] obtain hit where
    k: "fm_folders st' = cascade (map fo_id hit) (filter (\<lambda>f. f \<notin> set hit) (fm_folders st))"
    by blast
  let ?rest = "filter (\<lambda>f. f \<notin> set hit) (fm_folders st)"
  from ok have dist: "distinct (map fo_id (fm_folders st))"
    and po: "\<forall>f \<in> set (fm_folders st). path_ok (fm_folders st) f"
    by (simp_all add: paths_ok_def list_all_iff)
  from dist have dr: "distinct (map fo_id ?rest)" by (rule distinct_map_filter)
  then have d': "distinct (map fo_id (fm_folders st'))" unfolding k by (rule cascade_distinct)
  have "path_ok (fm_folders st') f" if f: "f \<in> set (fm_folders st')" for f
  proof (cases "fo_parent_id f")
    case None
    from f cascade_subset have "f \<in> set (fm_folders st)" unfolding k by fastforce
    with po None show ?thesis by (auto simp: path_ok_def)
  next
    case (Some p)
    from f cascade_subset have fin: "f \<in> set (fm_folders st)" unfolding k by fastforce
    with po Some obtain g where g: "lookupFolder (fm_folders st) p = Some g"
      and path: "fo_path f = fo_path g @ fo_name g @ ''/''"
      by (auto simp: path_ok_def split: option.splits)
    from lookupFolder_Some [OF g] have gin: "g \<in> set (fm_folders st)" and gid: "fo_id g = p"
      by simp_all
    from cascade_closed [OF f [unfolded k] Some]
    have nh: "p \<notin> set (map fo_id hit)"
      and cl: "\<forall>g \<in> set ?rest. fo_id g = p \<longrightarrow> g \<in> set (fm_folders st')"
      unfolding k by simp_all
    from nh gid have "g \<notin> set hit" by auto
    with gin have "g \<in> set ?rest" by simp
    with cl gid have "g \<in> set (fm_folders st')" by simp
    from lookupFolder_distinct [OF d' this] gid
    have "lookupFolder (fm_folders st') p = Some g" by simp
    with Some path show ?thesis by (simp add: path_ok_def)
  qed
  with d' show ?thesis by (simp add: paths_ok_def list_all_iff)
qed

lemma uploadFile_folders: "fm_folders (snd (uploadFile session fileId now file folderId st)) = fm_folders st"
  by (auto simp: uploadFile_def insertFile_def Let_def split: option.splits sum.splits if_splits)

lemma deleteFile_folders: "deleteFile session i st = Inr st' \<Longrightarrow> fm_folders st' = fm_folders st"
  by (auto simp: deleteFile_def split: sum.splits)

lemma moveFile_folders:
  "moveFile session fileId newFolderId now st = Inr (x, st') \<Longrightarrow> fm_folders st' = fm_folders st"
  by (auto simp: moveFile_def split: sum.splits option.splits)

lemma apply_op_ok: "paths_ok (fm_folders st) \<Longrightarrow> paths_ok (fm_folders (apply_op x st))"
proof (cases x)
  case (SignUp uid newId now)
  assume "paths_ok (fm_folders st)"
  with SignUp show ?thesis by (auto split: sum.splits dest: signUp_ok)
next
  case (CreateFolder session newId now name parentId)
  assume "paths_ok (fm_folders st)"
  with CreateFolder show ?thesis by (auto split: sum.splits dest: createFolder_Inr)
next
  case (DeleteFolder session i)
  assume "paths_ok (fm_folders st)"
  with DeleteFolder show ?thesis by (auto split: sum.splits dest: deleteFolder_ok)
next
  case (UploadFile session fileId now upl folderId)
  assume "paths_ok (fm_folders st)"
  with UploadFile show ?thesis by (simp add: uploadFile_folders)
next
  case (DeleteFile session i)
  assume "paths_ok (fm_folders st)"
  with DeleteFile show ?thesis by (auto split: sum.splits dest: deleteFile_folders)
next
  case (MoveFile session fileId newFolderId now)
  assume "paths_ok (fm_folders st)"
  with MoveFile show ?thesis by (auto split: sum.splits dest: moveFile_folders)
qed

lemma history_ok: "paths_ok (fm_folders (history ops))"
proof (induction ops rule: rev_induct)
  case Nil
  show ?case by (simp add: history_def empty_store_def paths_ok_def)
next
  case (snoc x xs)
  then show ?case by (simp add: history_def apply_op_ok)
qed

lemma path_ok_nonempty: "path_ok tbl f \<Longrightarrow> fo_path f \<noteq> []"
  by (auto simp: path_ok_def split: option.splits)

lemma livePath_ok:
  "paths_ok tbl \<Longrightarrow> f \<in> set tbl \<Longrightarrow> length (fo_path f) \<le> n \<Longrightarrow> livePath n tbl f = Some (fo_path f)"
proof (induction n arbitrary: f)
  case 0
  from "0.prems"(1,2) have "path_ok tbl f" by (simp add: paths_ok_def list_all_iff)
  from path_ok_nonempty [OF this] "0.prems"(3) show ?case by simp
next
  case (Suc n)
  from Suc.prems(1,2) have po: "path_ok tbl f" by (simp add: paths_ok_def list_all_iff)
  show ?case
  proof (cases "fo_parent_id f")
    case None
    with po show ?thesis by (simp add: path_ok_def)
  next
    case (Some p)
    with po obtain g where g: "lookupFolder tbl p = Some g"
      and path: "fo_path f = fo_path g @ fo_name g @ ''/''"
      by (auto simp: path_ok_def split: option.splits)
    from lookupFolder_Some [OF g] have gin: "g \<in> set tbl" by simp
    from path Suc.prems(3) have "length (fo_path g) \<le> n" by simp
    from Suc.IH [OF Suc.prems(1) gin this] Some g path show ?thesis by simp
  qed
qed

lemma mem_map_fo_id: "g \<in> set xs \<Longrightarrow> fo_id g \<in> set (map fo_id xs)"
  by simp

lemma files_ok_folders_append:
  "files_ok st \<Longrightarrow> files_ok (st\<lparr>fm_folders := fm_folders st @ ext\<rparr>)"
  unfolding files_ok_def list_all_iff
  by (auto dest: lookupFolder_append_Some)

lemma insertFolder_files_ok:
  "insertFolder row st = Inr (f, st') \<Longrightarrow> files_ok st \<Longrightarrow> files_ok st'"
  by (drule insertFolder_Inr) (simp add: files_ok_folders_append)

lemma deleteFolder_files_ok:
  assumes d: "deleteFolder session i st = Inr st'" and ok: "paths_ok (fm_folders st)"
    and fk: "files_ok st"
  shows "files_ok st'"
proof -
  let ?hit = "filter (\<lambda>f. fo_id f = i) (visible session (fm_folders st))"
  let ?kept = "cascade (map fo_id ?hit) (filter (\<lambda>f. f \<notin> set ?hit) (fm_folders st))"
  let ?removed = "filter (\<lambda>f. f \<notin> set ?kept) (fm_folders st)"
  from d have fo: "fm_folders st' = ?kept"
    and fi: "fm_files st' = filter (\<lambda>x. fi_folder_id x \<notin> set (map fo_id ?removed)) (fm_files st)"
    by (auto simp: deleteFolder_def Let_def)
  from deleteFolder_ok [OF d ok] have d': "distinct (map fo_id (fm_folders st'))"
    by (simp add: paths_ok_def)
  have "lookupFolder (fm_folders st') (fi_folder_id x) \<noteq> None" if x: "x \<in> set (fm_files st')" for x
  proof -
    from x fi have xin: "x \<in> set (fm_files st)"
      and nr: "fi_folder_id x \<notin> set (map fo_id ?removed)" by simp_all
    from fk xin obtain g where g: "lookupFolder (fm_folders st) (fi_folder_id x) = Some g"
      by (auto simp: files_ok_def list_all_iff)
    from lookupFolder_Some [OF g] have gin: "g \<in> set (fm_folders st)" and gid: "fo_id g = fi_folder_id x"
      by simp_all
    have "g \<in> set ?kept"
    proof (rule ccontr)
      assume "g \<notin> set ?kept"
      with gin have "g \<in> set ?removed" by simp
      then have "fo_id g \<in> set (map fo_id ?removed)" by (rule mem_map_fo_id)
      with nr gid show False by simp
    qed
    with fo have "g \<in> set (fm_folders st')" by simp
    from lookupFolder_distinct [OF d' this] gid show ?thesis by simp
  qed
  then show ?thesis by (simp add: files_ok_def list_all_iff)
qed

lemma uploadFile_files_ok:
  "files_ok st \<Longrightarrow> files_ok (snd (uploadFile session fileId now upl folderId st))"
  by (auto simp: uploadFile_def insertFile_def Let_def files_ok_def
      split: option.splits sum.splits if_splits)

lemma deleteFile_files_ok:
  "deleteFile session i st = Inr st' \<Longrightarrow> files_ok st \<Longrightarrow> files_ok st'"
  by (auto simp: deleteFile_def files_ok_def list_all_iff split: sum.splits)

lemma moveFile_files_ok:
  "moveFile session fileId newFolderId now st = Inr (x, st') \<Longrightarrow> files_ok st \<Longrightarrow> files_ok st'"
  by (auto simp: moveFile_def files_ok_def list_all_iff split: sum.splits option.splits)

lemma apply_op_files_ok:
  assumes "paths_ok (fm_folders st)" and "files_ok st"
  shows "files_ok (apply_op x st)"
proof (cases x)
  case (SignUp uid newId now)
  with assms show ?thesis
    by (auto simp: create_user_root_folder_def split: sum.splits dest: insertFolder_files_ok)
next
  case (CreateFolder session newId now name parentId)
  with assms show ?thesis
    by (auto simp: createFolder_def split: sum.splits option.splits dest: insertFolder_files_ok)
next
  case (DeleteFolder session i)
  with assms show ?thesis by (auto split: sum.splits dest: deleteFolder_files_ok)
next
  case (UploadFile session fileId now upl folderId)
  with assms show ?thesis by (simp add: uploadFile_files_ok)
next
  case (DeleteFile session i)
  with assms show ?thesis by (auto split: sum.splits dest: deleteFile_files_ok)
next
  case (MoveFile session fileId newFolderId now)
  with assms show ?thesis by (auto split: sum.splits dest: moveFile_files_ok)
qed

lemma history_files_ok: "files_ok (history ops)"
proof (induction ops rule: rev_induct)
  case Nil
  show ?case by (simp add: history_def empty_store_def files_ok_def)
next
  case (snoc x xs)
  have "paths_ok (fm_folders (history xs))" by (rule history_ok)
  from apply_op_files_ok [OF this snoc] show ?case by (simp add: history_def)
qed

lemma deleteFolder_removes:
  assumes ok: "paths_ok (fm_folders st)" and fk: "files_ok st"
    and r: "r \<in> set (fm_folders st)" and own: "session = Some (fo_user_id r)"
  shows "\<exists>st'. deleteFolder session (fo_id r) st = Inr st'
      \<and> r \<notin> set (fm_folders st')
      \<and> set (fm_folders st') \<subseteq> set (fm_folders st)
      \<and> set (fm_files st') \<subseteq> set (fm_files st)
      \<and> bucket st' = bucket st
      \<and> (\<forall>f \<in> set (fm_folders st'). \<forall>p. fo_parent_id f = Some p \<longrightarrow>
            p \<noteq> fo_id r \<and> lookupFolder (fm_folders st') p \<noteq> None)
      \<and> (\<forall>x \<in> set (fm_files st').
            fi_folder_id x \<noteq> fo_id r \<and> lookupFolder (fm_folders st') (fi_folder_id x) \<noteq> None)"
proof -
  let ?hit = "filter (\<lambda>f. fo_id f = fo_id r) (visible session (fm_folders st))"
  let ?rest = "filter (\<lambda>f. f \<notin> set ?hit) (fm_folders st)"
  let ?kept = "cascade (map fo_id ?hit) ?rest"
  let ?removed = "filter (\<lambda>f. f \<notin> set ?kept) (fm_folders st)"
  obtain st' where d: "deleteFolder session (fo_id r) st = Inr st'"
    by (simp add: deleteFolder_def Let_def)
  from d have fo: "fm_folders st' = ?kept"
    and fi: "fm_files st' = filter (\<lambda>x. fi_folder_id x \<notin> set (map fo_id ?removed)) (fm_files st)"
    and bu: "bucket st' = bucket st"
    by (auto simp: deleteFolder_def Let_def)
  from r own have rhit: "r \<in> set ?hit" by (simp add: visible_def)
  have sub: "set ?kept \<subseteq> set ?rest" by (rule cascade_subset)
  with rhit have rk: "r \<notin> set ?kept" by auto
  from ok have dist: "distinct (map fo_id (fm_folders st))" by (simp add: paths_ok_def)
  from deleteFolder_ok [OF d ok] have ok': "paths_ok (fm_folders st')" .
  from deleteFolder_files_ok [OF d ok fk] have fk': "files_ok st'" .
  have same: "g = r" if "g \<in> set (fm_folders st)" "fo_id g = fo_id r" for g
  proof -
    have "Some g = lookupFolder (fm_folders st) (fo_id g)"
      using lookupFolder_distinct [OF dist that(1)] by (rule sym)
    also have "\<dots> = lookupFolder (fm_folders st) (fo_id r)" by (simp only: that(2))
    also have "\<dots> = Some r" by (rule lookupFolder_distinct [OF dist r])
    finally show ?thesis by (simp only: option.inject)
  qed
  have par: "p \<noteq> fo_id r \<and> lookupFolder (fm_folders st') p \<noteq> None"
    if f: "f \<in> set (fm_folders st')" and p: "fo_parent_id f = Some p" for f p
  proof -
    from ok' f have "path_ok (fm_folders st') f" by (simp add: paths_ok_def list_all_iff)
    with p obtain g where g: "lookupFolder (fm_folders st') p = Some g"
      by (auto simp: path_ok_def split: option.splits)
    from lookupFolder_Some [OF g] fo sub have "g \<in> set (fm_folders st)" "g \<in> set ?kept" "fo_id g = p"
      by auto
    with same rk g show ?thesis by auto
  qed
  have fil: "fi_folder_id x \<noteq> fo_id r \<and> lookupFolder (fm_folders st') (fi_folder_id x) \<noteq> None"
    if x: "x \<in> set (fm_files st')" for x
  proof -
    from r rk have "r \<in> set ?removed" by simp
    then have "fo_id r \<in> set (map fo_id ?removed)" by (rule mem_map_fo_id)
    moreover from x fi have "fi_folder_id x \<notin> set (map fo_id ?removed)" by simp
    ultimately have "fi_folder_id x \<noteq> fo_id r" by metis
    moreover from fk' x have "lookupFolder (fm_folders st') (fi_folder_id x) \<noteq> None"
      by (simp add: files_ok_def list_all_iff)
    ultimately show ?thesis by simp
  qed
  from sub have s1: "set (fm_folders st') \<subseteq> set (fm_folders st)" unfolding fo by auto
  have s2: "set (fm_files st') \<subseteq> set (fm_files st)" unfolding fi by auto
  from rk have rk': "r \<notin> set (fm_folders st')" unfolding fo .
  from d rk' s1 s2 bu par fil show ?thesis by blast
qed

lemma history_ops_tree: "history ops_tree = st_tree"
  by code_simp

text \<open>
  Claim C1. In every store reached by a history of operations, the stored path of every
  folder is the path its live parent chain gives: \<^verbatim>\<open>"/"\<close> at a folder without parent,
  and otherwise the path of the parent followed by the parent's name and \<^verbatim>\<open>"/"\<close>, all
  the way up; following the chain for as many rounds as the path has characters is
  enough. A folder that \<^verbatim>\<open>createFolder\<close> creates on such a store is stored with the path
  of the parent row followed by the parent's name and \<^verbatim>\<open>"/"\<close> when a parent id is given
  (the parent being a row of the same user), and with \<^verbatim>\<open>"/"\<close> and no parent when none is
  given (an empty id counts as none); the store after it is consistent again.
\<close>

theorem folder_paths_consistent:
  "(\<forall>f \<in> set (fm_folders (history ops)).
       livePath (length (fo_path f)) (fm_folders (history ops)) f = Some (fo_path f))
   \<and> (createFolder session newId now name parentId (history ops) = Inr (f, st') \<longrightarrow>
        f \<in> set (fm_folders st') \<and> fo_name f = name
        \<and> (if truthy parentId
            then \<exists>p g. parentId = Some p \<and> fo_parent_id f = Some p
                   \<and> lookupFolder (fm_folders (history ops)) p = Some g
                   \<and> Some (fo_user_id g) = session
                   \<and> fo_path f = fo_path g @ fo_name g @ ''/''
            else fo_parent_id f = None \<and> fo_path f = ''/'')
        \<and> (\<forall>h \<in> set (fm_folders st').
              livePath (length (fo_path h)) (fm_folders st') h = Some (fo_path h)))"
proof -
  have ok: "paths_ok (fm_folders (history ops))" by (rule history_ok)
  have a: "\<forall>f \<in> set (fm_folders (history ops)).
       livePath (length (fo_path f)) (fm_folders (history ops)) f = Some (fo_path f)"
    using livePath_ok [OF ok] by simp
  have b: "f \<in> set (fm_folders st') \<and> fo_name f = name
        \<and> (if truthy parentId
            then \<exists>p g. parentId = Some p \<and> fo_parent_id f = Some p
                   \<and> lookupFolder (fm_folders (history ops)) p = Some g
                   \<and> Some (fo_user_id g) = session
                   \<and> fo_path f = fo_path g @ fo_name g @ ''/''
            else fo_parent_id f = None \<and> fo_path f = ''/'')
        \<and> (\<forall>h \<in> set (fm_folders st').
              livePath (length (fo_path h)) (fm_folders st') h = Some (fo_path h))"
    if c: "createFolder session newId now name parentId (history ops) = Inr (f, st')"
  proof -
    note r = createFolder_Inr [OF c ok]
    from r have ok': "paths_ok (fm_folders st')" by (rule conjunct1)
    have "\<forall>h \<in> set (fm_folders st').
              livePath (length (fo_path h)) (fm_folders st') h = Some (fo_path h)"
      using livePath_ok [OF ok'] by simp
    with r show ?thesis by blast
  qed
  from a b show ?thesis by blast
qed

theorem folder_paths_consistent_witness:
  "createFolder (Some ''u'') ''q'' 5 ''Q1'' (Some ''p'') (history ops_tree) = Inr (q1_q, st_q1)
   \<and> truthy (Some ''p'')
   \<and> fo_path q1_q = ''/Root/Docs/Reports/''
   \<and> reports_p \<in> set (fm_folders (history ops_tree))
   \<and> livePath (length (fo_path reports_p)) (fm_folders (history ops_tree)) reports_p
       = Some ''/Root/Docs/''
   \<and> livePath (length (fo_path q1_q)) (fm_folders st_q1) q1_q = Some ''/Root/Docs/Reports/''"
proof -
  have h: "createFolder (Some ''u'') ''q'' 5 ''Q1'' (Some ''p'') (history ops_tree) = Inr (q1_q, st_q1)"
    by code_simp
  have t: "truthy (Some ''p'')"
    by (simp add: truthy_def)
  have m: "reports_p \<in> set (fm_folders (history ops_tree))"
    by (simp add: history_ops_tree st_tree_def)
  have p1: "fo_path reports_p = ''/Root/Docs/''" and p2: "fo_path q1_q = ''/Root/Docs/Reports/''"
    by (simp_all add: reports_p_def q1_q_def)
  note inst = folder_paths_consistent [of ops_tree "Some ''u''" "''q''" 5 "''Q1''" "Some ''p''" q1_q st_q1]
  from inst m have l1: "livePath (length (fo_path reports_p)) (fm_folders (history ops_tree)) reports_p
       = Some (fo_path reports_p)" by blast
  from inst h have "q1_q \<in> set (fm_folders st_q1)"
    and "\<forall>h \<in> set (fm_folders st_q1).
           livePath (length (fo_path h)) (fm_folders st_q1) h = Some (fo_path h)" by blast+
  then have l2: "livePath (length (fo_path q1_q)) (fm_folders st_q1) q1_q = Some (fo_path q1_q)"
    by blast
  from h t m l1 l2 show ?thesis unfolding p1 p2 by blast
qed

text \<open>
  Claim C8 fails on the code at the objects of the bucket. Deleting the folder Docs, which
  holds the folder Reports with the file a.pdf in it, removes both folder rows and the
  file row, but the bytes of a.pdf stay in the bucket: \<^verbatim>\<open>deleteFolder\<close> makes no call
  to the storage, unlike \<^verbatim>\<open>deleteFile\<close>, which removes the object of the file it
  deletes.
\<close>

theorem deleteFolder_leaves_blob:
  "history ops_tree = st_tree
   \<and> deleteFolder (Some ''u'') ''d'' st_tree
      = Inr \<lparr>fm_folders = [root_r], fm_files = [], bucket = [(''u/f1_a.pdf'', ''%PDF'')]\<rparr>
   \<and> deleteFile (Some ''u'') ''f1'' st_tree
      = Inr \<lparr>fm_folders = [root_r, docs_d, reports_p], fm_files = [], bucket = []\<rparr>"
  by code_simp

text \<open>
  Claim C9, as stated, fails: deleting the root folder of a user is not rejected, and the
  folder tree does not stay as it was; the root and all below it are gone.
\<close>

theorem root_delete_succeeds:
  "fm_folders (history ops_tree) = [root_r, docs_d, reports_p]
   \<and> fo_parent_id root_r = None \<and> fo_path root_r = ''/''
   \<and> deleteFolder (Some ''u'') ''r'' (history ops_tree)
      = Inr \<lparr>fm_folders = [], fm_files = [], bucket = [(''u/f1_a.pdf'', ''%PDF'')]\<rparr>"
  by code_simp

text \<open>
  Claim C9, amended. \<^verbatim>\<open>deleteFolder\<close> has no rule for root folders. Called by its owner
  on a root folder of any store a history reaches, it succeeds; the root is gone, the
  folders and files left were there before, and none of them references the root or any
  other folder that is gone. The one guard is in the folder tree component, which offers
  no delete button for the root folder that the sign-up trigger creates.
\<close>

theorem root_delete_cascades:
  assumes "r \<in> set (fm_folders (history ops))" and "fo_parent_id r = None"
    and "session = Some (fo_user_id r)"
  shows "\<exists>st'. deleteFolder session (fo_id r) (history ops) = Inr st'
      \<and> r \<notin> set (fm_folders st')
      \<and> set (fm_folders st') \<subseteq> set (fm_folders (history ops))
      \<and> set (fm_files st') \<subseteq> set (fm_files (history ops))
      \<and> (\<forall>f \<in> set (fm_folders st'). \<forall>p. fo_parent_id f = Some p \<longrightarrow>
            p \<noteq> fo_id r \<and> lookupFolder (fm_folders st') p \<noteq> None)
      \<and> (\<forall>x \<in> set (fm_files st').
            fi_folder_id x \<noteq> fo_id r \<and> lookupFolder (fm_folders st') (fi_folder_id x) \<noteq> None)
      \<and> (\<forall>uid newId now st0 st1.
            create_user_root_folder uid newId now st0 = Inr (r, st1) \<longrightarrow> \<not> deleteOffered r)"
proof -
  from deleteFolder_removes [OF history_ok history_files_ok assms(1,3)]
  obtain st' where d: "deleteFolder session (fo_id r) (history ops) = Inr st'"
    "r \<notin> set (fm_folders st')"
    "set (fm_folders st') \<subseteq> set (fm_folders (history ops))"
    "set (fm_files st') \<subseteq> set (fm_files (history ops))"
    "\<forall>f \<in> set (fm_folders st'). \<forall>p. fo_parent_id f = Some p \<longrightarrow>
            p \<noteq> fo_id r \<and> lookupFolder (fm_folders st') p \<noteq> None"
    "\<forall>x \<in> set (fm_files st').
            fi_folder_id x \<noteq> fo_id r \<and> lookupFolder (fm_folders st') (fi_folder_id x) \<noteq> None"
    by blast
  have "\<not> deleteOffered r" if "create_user_root_folder uid newId now st0 = Inr (r, st1)"
    for uid newId now st0 st1
    using insertFolder_Inr [OF that [unfolded create_user_root_folder_def]]
    by (simp add: deleteOffered_def)
  with d show ?thesis by blast
qed

theorem root_delete_cascades_witness:
  "root_r \<in> set (fm_folders (history ops_tree)) \<and> fo_parent_id root_r = None
   \<and> (\<exists>st'. deleteFolder (Some (fo_user_id root_r)) (fo_id root_r) (history ops_tree) = Inr st'
         \<and> root_r \<notin> set (fm_folders st'))
   \<and> create_user_root_folder ''u'' ''r'' 1 empty_store
       = Inr (root_r, \<lparr>fm_folders = [root_r], fm_files = [], bucket = []\<rparr>)
   \<and> \<not> deleteOffered root_r"
proof -
  have h1: "root_r \<in> set (fm_folders (history ops_tree))"
    by (simp add: history_ops_tree st_tree_def)
  have h2: "fo_parent_id root_r = None"
    by (simp add: root_r_def)
  have h3: "create_user_root_folder ''u'' ''r'' 1 empty_store
       = Inr (root_r, \<lparr>fm_folders = [root_r], fm_files = [], bucket = []\<rparr>)"
    by code_simp
  from root_delete_cascades [OF h1 h2 refl] h1 h2 h3 show ?thesis by blast
qed

text \<open>
  Claim C2 fails on the code when a folder that is not an ancestor bears the name of one.
  Under Root are A, with B in it, and C, with a second folder named A in it. The
  breadcrumbs of B hold that second A between the ancestors and B; the ancestors of B, as
  \<^verbatim>\<open>getFolderParents\<close> walks them, are Root and the first A only.
\<close>

theorem breadcrumbs_include_namesake:
  "getFolderBreadcrumbs (Some ''u'') ''b'' (history ops_names)
     = Inr [(''r'', ''Root'', ''/''), (''a'', ''A'', ''/Root/''), (''a2'', ''A'', ''/Root/C/''),
            (''b'', ''B'', ''/Root/A/'')]
   \<and> getFolderParents 3 (Some ''u'') ''b'' (history ops_names) = Some [''r'', ''a'']"
  by code_simp

text \<open>
  Claim C6 fails on the code: the checksum \<^verbatim>\<open>uploadFile\<close> stores is made of the size, the
  name and the clock, not of the bytes. The same bytes uploaded under the same name at two
  times get two checksums, and other bytes of the same length uploaded at the same time get
  the same checksum.
\<close>

theorem checksum_not_from_content:
  "map_sum id fi_checksum (fst (uploadFile (Some ''u'') ''f2'' 1000 pdf_a ''p'' st_tree))
     = Inr ''4_a.pdf_1000''
   \<and> map_sum id fi_checksum (fst (uploadFile (Some ''u'') ''f3'' 2000 pdf_a ''p'' st_tree))
     = Inr ''4_a.pdf_2000''
   \<and> up_bytes pdf_a \<noteq> up_bytes pdf_other
   \<and> map_sum id fi_checksum (fst (uploadFile (Some ''u'') ''f4'' 1000 pdf_other ''p'' st_tree))
     = Inr ''4_a.pdf_1000''"
  by code_simp

end

